theory Spec2Isabelle
  imports Complex_Main "HOL-Library.Word" "HOL-Library.FSet"
    "HOL-Library.Char_ord" "HOL-Library.List_Lexorder"
begin

section \<open>Errors and shared types (types.py)\<close>

datatype ErrorCode =
    EMPTY_COMMAND | UNSAFE_COMMAND | EXEC_FAILED | EXEC_ERROR | READ_FAILED | WRITE_FAILED
  | LS_FAILED | PATH_ESCAPE_ATTEMPT | MISSING_UTILITIES | INVALID_CONFIGURATION
  | DANGEROUS_OPERATION | CONNECTION_CLOSED | KEY_NOT_FOUND | NOT_IMPLEMENTED

text \<open>
  The exceptions the modelled operations raise. \<^verbatim>\<open>BackendError(message, code, operation)\<close>
  and its subclass \<^verbatim>\<open>PathEscapeError(path)\<close>, which carries the offending operand, are
  the repository's own; \<open>KeyError\<close>, \<open>UnicodeDecodeError\<close> and \<open>OSError\<close> are Python's.
\<close>

datatype error =
    PathEscapeError string
  | BackendError string ErrorCode "string option"
  | KeyError string
  | UnicodeDecodeError
  | OSError string

datatype ConnectionStatus = CONNECTED | CONNECTING | DISCONNECTED | RECONNECTING | DESTROYED

text \<open>A \<^verbatim>\<open>float\<close> from \<^verbatim>\<open>time.time()\<close>; it is only stored and compared.\<close>

type_synonym timestamp = real

type_synonym byte = "8 word"

text \<open>A payload: \<^verbatim>\<open>str | bytes\<close>.\<close>

datatype content = Str string | Bytes "byte list"

text \<open>\<^verbatim>\<open>ReadOptions.encoding\<close>.\<close>

datatype encoding = Utf8 | Buffer

record FileStat =
  is_file :: bool
  is_directory :: bool
  size' :: nat
  modified :: timestamp

section \<open>Path boundary validation (backends/path\_validation.py)\<close>

subsection \<open>The functions of Python's posixpath that the validator calls\<close>

text \<open>
  \<^verbatim>\<open>validate_within_boundary\<close> works through a path module; on a POSIX host
  \<^verbatim>\<open>os.path\<close> is \<^verbatim>\<open>posixpath\<close>, so both settings of \<^verbatim>\<open>use_posix\<close> reach the
  functions below. They follow CPython's \<^verbatim>\<open>posixpath.py\<close>.
\<close>

fun startswith :: "string \<Rightarrow> string \<Rightarrow> bool" where
  "startswith s [] = True"
| "startswith [] (p # ps) = False"
| "startswith (c # cs) (p # ps) = (c = p \<and> startswith cs ps)"

definition endswith :: "string \<Rightarrow> string \<Rightarrow> bool" where
  "endswith s p = startswith (rev s) (rev p)"

definition isabs :: "string \<Rightarrow> bool" where
  "isabs s = startswith s ''/''"

text \<open>\<^verbatim>\<open>s.split(c)\<close>: always at least one field.\<close>

fun split :: "char \<Rightarrow> string \<Rightarrow> string list" where
  "split d [] = [[]]"
| "split d (c # cs) =
     (if c = d then [] # split d cs
      else (case split d cs of [] \<Rightarrow> [[c]] | w # ws \<Rightarrow> (c # w) # ws))"

text \<open>\<^verbatim>\<open>'/'.join(comps)\<close>.\<close>

fun sep_join :: "string list \<Rightarrow> string" where
  "sep_join [] = []"
| "sep_join [x] = x"
| "sep_join (x # y # zs) = x @ ''/'' @ sep_join (y # zs)"

text \<open>
  The component loop of \<^verbatim>\<open>normpath\<close>; \<open>ini\<close> is \<^verbatim>\<open>initial_slashes\<close> read as a
  truth value, \<open>new\<close> is \<^verbatim>\<open>new_comps\<close>.
\<close>

fun norm_comps :: "bool \<Rightarrow> string list \<Rightarrow> string list \<Rightarrow> string list" where
  "norm_comps ini [] new = new"
| "norm_comps ini (cmp # comps) new =
     (if cmp = [] \<or> cmp = ''.'' then norm_comps ini comps new
      else if cmp \<noteq> ''..'' \<or> (\<not> ini \<and> new = []) \<or> (new \<noteq> [] \<and> last new = ''..'')
        then norm_comps ini comps (new @ [cmp])
      else if new \<noteq> [] then norm_comps ini comps (butlast new)
      else norm_comps ini comps new)"

definition initial_slashes :: "string \<Rightarrow> nat" where
  "initial_slashes path =
     (if startswith path ''/''
      then (if startswith path ''//'' \<and> \<not> startswith path ''///'' then 2 else 1)
      else 0)"

definition normpath :: "string \<Rightarrow> string" where
  "normpath path =
     (if path = [] then ''.''
      else
        let n = initial_slashes path;
            comps = norm_comps (n \<noteq> 0) (split CHR ''/'' path) [];
            p = replicate n CHR ''/'' @ sep_join comps
        in if p = [] then ''.'' else p)"

definition join :: "string \<Rightarrow> string \<Rightarrow> string" where
  "join a b =
     (if startswith b ''/'' then b
      else if a = [] \<or> endswith a ''/'' then a @ b
      else a @ ''/'' @ b)"

text \<open>\<^verbatim>\<open>s.lstrip("/")\<close>.\<close>

definition lstrip_slash :: "string \<Rightarrow> string" where
  "lstrip_slash s = dropWhile (\<lambda>c. c = CHR ''/'') s"

subsection \<open>The validator\<close>

text \<open>\<^verbatim>\<open>_resolve(p, pathmod)\<close>.\<close>

definition resolve :: "string \<Rightarrow> string" where
  "resolve p = normpath (join ''/'' p)"

text \<open>
  The containment test written twice in \<^verbatim>\<open>validate_within_boundary\<close> and once in
  \<^verbatim>\<open>validate_absolute_within_root\<close>:
  \<^verbatim>\<open>r.startswith(b + sep) or r == b\<close>.
\<close>

definition contained :: "string \<Rightarrow> string \<Rightarrow> bool" where
  "contained r b = (startswith r (b @ ''/'') \<or> r = b)"

definition validate_within_boundary :: "string \<Rightarrow> string \<Rightarrow> error + string" where
  "validate_within_boundary relative_path boundary =
     (let boundary_resolved = resolve boundary in
      if isabs relative_path \<and> contained (resolve relative_path) boundary_resolved
      then Inr (resolve relative_path)
      else
        let normalized_path =
              (if isabs relative_path then lstrip_slash relative_path else relative_path);
            combined = join boundary normalized_path;
            resolved = resolve combined
        in if \<not> contained resolved boundary_resolved
           then Inl (PathEscapeError relative_path)
           else Inr (normpath combined))"

definition validate_absolute_within_root :: "string \<Rightarrow> string \<Rightarrow> error + unit" where
  "validate_absolute_within_root absolute_path root_dir =
     (if \<not> contained (resolve absolute_path) (resolve root_dir)
      then Inl (PathEscapeError absolute_path)
      else Inr ())"

section \<open>Regular expressions as the safety classifier uses them\<close>

text \<open>
  \<^verbatim>\<open>safety.py\<close> compiles its patterns with Python's \<^verbatim>\<open>re\<close>. The patterns are
  embedded as syntax trees and run by a backtracking matcher that tries alternatives in
  the order \<^verbatim>\<open>re\<close> does (greedy quantifiers longest first, lazy ones shortest first,
  the left alternative before the right one). Commands are strings of ASCII characters:
  \<^verbatim>\<open>\s\<close>, \<^verbatim>\<open>\w\<close> and \<^verbatim>\<open>str.lower\<close> are given on ASCII, where \<^verbatim>\<open>\s\<close> and
  \<^verbatim>\<open>str.strip\<close> take the code points 9 to 13 and 28 to 32 as white space. On other
  characters Python follows Unicode (letters and digits of every script are word
  characters, \<^verbatim>\<open>\s\<close> has further spaces, \<^verbatim>\<open>str.lower\<close> has further case pairs); commands
  with such characters are outside what is stated here.
\<close>

text \<open>Characters are ordered by their code points.\<close>

definition in_range :: "char \<Rightarrow> char \<Rightarrow> char \<Rightarrow> bool" where
  "in_range lo hi c = (lo \<le> c \<and> c \<le> hi)"

definition is_space :: "char \<Rightarrow> bool" where
  "is_space c = (in_range (CHR 0x09) (CHR 0x0D) c \<or> in_range (CHR 0x1C) (CHR 0x20) c)"

definition is_word :: "char \<Rightarrow> bool" where
  "is_word c = (in_range CHR ''a'' CHR ''z'' c \<or> in_range CHR ''A'' CHR ''Z'' c
                \<or> in_range CHR ''0'' CHR ''9'' c \<or> c = CHR ''_'')"

definition lower_char :: "char \<Rightarrow> char" where
  "lower_char c =
     (case map_of (zip ''ABCDEFGHIJKLMNOPQRSTUVWXYZ'' ''abcdefghijklmnopqrstuvwxyz'') c of
        None \<Rightarrow> c
      | Some l \<Rightarrow> l)"

text \<open>\<^verbatim>\<open>s.lower()\<close> and \<^verbatim>\<open>s.strip()\<close>.\<close>

definition lower :: "string \<Rightarrow> string" where
  "lower s = map lower_char s"

definition strip :: "string \<Rightarrow> string" where
  "strip s = rev (dropWhile is_space (rev (dropWhile is_space s)))"

text \<open>
  An item of a character class: a character, a range, \<^verbatim>\<open>\s\<close>, \<^verbatim>\<open>\S\<close> or \<^verbatim>\<open>\w\<close>.
\<close>

datatype citem = C char | R char char | S | NS | W

fun citem_matches :: "citem \<Rightarrow> char \<Rightarrow> bool" where
  "citem_matches (C x) c = (c = x)"
| "citem_matches (R lo hi) c = in_range lo hi c"
| "citem_matches S c = is_space c"
| "citem_matches NS c = (\<not> is_space c)"
| "citem_matches W c = is_word c"

text \<open>
  \<open>AnyChar\<close> is the dot (every character but the newline), \<open>CSet\<close> a class,
  \<open>NSet\<close> a negated class, \<open>WordB\<close> is \<^verbatim>\<open>\b\<close>, \<open>Bol\<close> and \<open>Eol\<close> are the anchors,
  \<open>Group n\<close> is the n-th capturing group and \<open>Backref n\<close> a reference to it.
\<close>

datatype regex =
    Eps | Lit char | AnyChar | CSet "citem list" | NSet "citem list"
  | WordB | Bol | Eol
  | Seq regex regex | Alt regex regex
  | Star regex | LazyStar regex | Plus regex | Opt regex
  | Group nat regex | Backref nat

text \<open>
  A matcher state: the character before the current position (none at the start of the
  string), the text still to be read, and the groups captured so far.
\<close>

type_synonym mstate = "char option \<times> string \<times> (nat \<times> string) list"

fun take1 :: "(char \<Rightarrow> bool) \<Rightarrow> mstate \<Rightarrow> mstate list" where
  "take1 P (p, [], g) = []"
| "take1 P (p, c # cs, g) = (if P c then [(Some c, cs, g)] else [])"

fun word_opt :: "char option \<Rightarrow> bool" where
  "word_opt None = False"
| "word_opt (Some c) = is_word c"

fun next_char :: "string \<Rightarrow> char option" where
  "next_char [] = None"
| "next_char (c # cs) = Some c"

text \<open>
  Repetition. Every round must consume a character, so the length of the remaining text
  bounds the number of rounds. The results are listed in the order in which a
  backtracking matcher tries them.
\<close>

fun iter_greedy :: "nat \<Rightarrow> (mstate \<Rightarrow> mstate list) \<Rightarrow> mstate \<Rightarrow> mstate list" where
  "iter_greedy 0 m st = [st]"
| "iter_greedy (Suc n) m st =
     concat (map (\<lambda>st'. if length (fst (snd st')) < length (fst (snd st))
                          then iter_greedy n m st' else []) (m st)) @ [st]"

fun iter_lazy :: "nat \<Rightarrow> (mstate \<Rightarrow> mstate list) \<Rightarrow> mstate \<Rightarrow> mstate list" where
  "iter_lazy 0 m st = [st]"
| "iter_lazy (Suc n) m st =
     st # concat (map (\<lambda>st'. if length (fst (snd st')) < length (fst (snd st))
                               then iter_lazy n m st' else []) (m st))"

text \<open>
  \<open>rmatch ml r st\<close>: every way \<open>r\<close> matches at the position of \<open>st\<close>, as the states
  after the match, first choice first; \<open>ml\<close> is the flag \<^verbatim>\<open>re.MULTILINE\<close>.
\<close>

primrec rmatch :: "bool \<Rightarrow> regex \<Rightarrow> mstate \<Rightarrow> mstate list" where
  "rmatch ml Eps = (\<lambda>st. [st])"
| "rmatch ml (Lit x) = take1 (\<lambda>c. c = x)"
| "rmatch ml AnyChar = take1 (\<lambda>c. c \<noteq> CHR 0x0A)"
| "rmatch ml (CSet items) = take1 (\<lambda>c. list_ex (\<lambda>i. citem_matches i c) items)"
| "rmatch ml (NSet items) = take1 (\<lambda>c. \<not> list_ex (\<lambda>i. citem_matches i c) items)"
| "rmatch ml WordB =
     (\<lambda>st. if word_opt (fst st) \<noteq> word_opt (next_char (fst (snd st))) then [st] else [])"
| "rmatch ml Bol =
     (\<lambda>st. if fst st = None \<or> (ml \<and> fst st = Some (CHR 0x0A)) then [st] else [])"
| "rmatch ml Eol =
     (\<lambda>st. if fst (snd st) = [] \<or> fst (snd st) = [CHR 0x0A]
               \<or> (ml \<and> next_char (fst (snd st)) = Some (CHR 0x0A)) then [st] else [])"
| "rmatch ml (Seq r1 r2) = (\<lambda>st. concat (map (rmatch ml r2) (rmatch ml r1 st)))"
| "rmatch ml (Alt r1 r2) = (\<lambda>st. rmatch ml r1 st @ rmatch ml r2 st)"
| "rmatch ml (Star r) = (\<lambda>st. iter_greedy (length (fst (snd st))) (rmatch ml r) st)"
| "rmatch ml (LazyStar r) = (\<lambda>st. iter_lazy (length (fst (snd st))) (rmatch ml r) st)"
| "rmatch ml (Plus r) =
     (\<lambda>st. concat (map (\<lambda>st'. iter_greedy (length (fst (snd st'))) (rmatch ml r) st')
                         (rmatch ml r st)))"
| "rmatch ml (Opt r) = (\<lambda>st. rmatch ml r st @ [st])"
| "rmatch ml (Group i r) =
     (\<lambda>st. map (\<lambda>(p', rest', g').
                   (p', rest', (i, take (length (fst (snd st)) - length rest') (fst (snd st))) # g'))
                (rmatch ml r st))"
| "rmatch ml (Backref i) =
     (\<lambda>st. case map_of (snd (snd st)) i of
        None \<Rightarrow> []
      | Some s \<Rightarrow>
          if startswith (fst (snd st)) s
          then [(if s = [] then fst st else Some (last s),
                 drop (length s) (fst (snd st)), snd (snd st))]
          else [])"

text \<open>\<^verbatim>\<open>pattern.search(s)\<close> as a truth value: a match at some position of \<open>s\<close>.\<close>

fun search_from :: "bool \<Rightarrow> regex \<Rightarrow> char option \<Rightarrow> string \<Rightarrow> bool" where
  "search_from ml r p [] = (rmatch ml r (p, [], []) \<noteq> [])"
| "search_from ml r p (c # cs) =
     (rmatch ml r (p, c # cs, []) \<noteq> [] \<or> search_from ml r (Some c) cs)"

definition re_search :: "regex \<Rightarrow> string \<Rightarrow> bool" where
  "re_search r s = search_from False r None s"

text \<open>
  \<^verbatim>\<open>pattern.sub(rep, s)\<close> for a replacement without group references: scanning from
  the left, the first choice of the matcher at the leftmost matching position is
  replaced and the scan goes on behind it; \<open>k\<close> counts the characters of the last match
  that are still to be skipped.
\<close>

fun sub_from :: "bool \<Rightarrow> regex \<Rightarrow> string \<Rightarrow> char option \<Rightarrow> nat \<Rightarrow> string \<Rightarrow> string" where
  "sub_from ml r rep p k [] = (if k = 0 \<and> rmatch ml r (p, [], []) \<noteq> [] then rep else [])"
| "sub_from ml r rep p (Suc k) (c # cs) = sub_from ml r rep (Some c) k cs"
| "sub_from ml r rep p 0 (c # cs) =
     (case rmatch ml r (p, c # cs, []) of
        [] \<Rightarrow> c # sub_from ml r rep (Some c) 0 cs
      | (p', rest', g') # _ \<Rightarrow>
          (if length rest' < length (c # cs)
           then rep @ sub_from ml r rep (Some c) (length cs - length rest') cs
           else rep @ c # sub_from ml r rep (Some c) 0 cs))"

text \<open>Shorthands for writing the patterns down.\<close>

fun seqs :: "regex list \<Rightarrow> regex" where
  "seqs [] = Eps"
| "seqs [r] = r"
| "seqs (r # rs) = Seq r (seqs rs)"

fun alts :: "regex list \<Rightarrow> regex" where
  "alts [] = NSet [S, NS]"
| "alts [r] = r"
| "alts (r # rs) = Alt r (alts rs)"

definition lit :: "string \<Rightarrow> regex" where
  "lit s = seqs (map Lit s)"

text \<open>\<^verbatim>\<open>\bword\b\<close>, \<^verbatim>\<open>\s\<close>, \<^verbatim>\<open>.*\<close> and the group \<^verbatim>\<open>(sh|bash|zsh|fish)\<close>.\<close>

definition wordb :: "string \<Rightarrow> regex" where
  "wordb s = seqs [WordB, lit s, WordB]"

definition sp :: regex where
  "sp = CSet [S]"

definition dots :: regex where
  "dots = Star AnyChar"

definition shells :: regex where
  "shells = alts [lit ''sh'', lit ''bash'', lit ''zsh'', lit ''fish'']"

section \<open>Command safety classifier (safety.py)\<close>

text \<open>
  The three pattern tables, in the order of the source. Each entry stands beside the
  source pattern it embeds.
\<close>

definition DEFAULT_ALLOWED_PATTERNS :: \<open>regex list\<close> where
  \<open>DEFAULT_ALLOWED_PATTERNS = [
     \<comment> \<open>\<^verbatim>\<open>^gcloud\s+.*\brsync\b\<close>\<close>
     seqs [Bol, lit ''gcloud'', Plus sp, dots, WordB, lit ''rsync'', WordB],
     \<comment> \<open>\<^verbatim>\<open>^gcloud\s+storage\s+rsync\b\<close>\<close>
     seqs [Bol, lit ''gcloud'', Plus sp, lit ''storage'', Plus sp, lit ''rsync'', WordB]
   ]\<close>

definition DANGEROUS_PATTERNS :: \<open>regex list\<close> where
  \<open>DANGEROUS_PATTERNS = [
     \<comment> \<open>\<^verbatim>\<open>\brm\b.*-rf?\b.*[/~*]\<close>\<close>
     seqs [WordB, lit ''rm'', WordB, dots, lit ''-r'', Opt (Lit CHR ''f''), WordB, dots,
           CSet [C CHR ''/'', C CHR ''~'', C CHR ''*'']],
     \<comment> \<open>\<^verbatim>\<open>\brm\b.*[/~*].*-rf?\b\<close>\<close>
     seqs [WordB, lit ''rm'', WordB, dots, CSet [C CHR ''/'', C CHR ''~'', C CHR ''*''], dots,
           lit ''-r'', Opt (Lit CHR ''f''), WordB],
     \<comment> \<open>\<^verbatim>\<open>\bdd\b.*\bof=/dev/\<close>\<close>
     seqs [WordB, lit ''dd'', WordB, dots, WordB, lit ''of=/dev/''],
     \<comment> \<open>\<^verbatim>\<open>\bsudo\b\<close>, \<^verbatim>\<open>\bsu\b\<close>, \<^verbatim>\<open>\bdoas\b\<close>\<close>
     wordb ''sudo'',
     wordb ''su'',
     wordb ''doas'',
     \<comment> \<open>\<^verbatim>\<open>\bchmod\b.*777\<close>\<close>
     seqs [WordB, lit ''chmod'', WordB, dots, lit ''777''],
     \<comment> \<open>\<^verbatim>\<open>\bchown\b.*root\<close>\<close>
     seqs [WordB, lit ''chown'', WordB, dots, lit ''root''],
     \<comment> \<open>\<^verbatim>\<open>curl\b.*\|\s*(sh|bash|zsh|fish)\b\<close>\<close>
     seqs [lit ''curl'', WordB, dots, Lit CHR ''|'', Star sp, Group 1 shells, WordB],
     \<comment> \<open>\<^verbatim>\<open>wget\b.*\|\s*(sh|bash|zsh|fish)\b\<close>\<close>
     seqs [lit ''wget'', WordB, dots, Lit CHR ''|'', Star sp, Group 1 shells, WordB],
     \<comment> \<open>\<^verbatim>\<open>\|\s*(sh|bash|zsh|fish)\s*$\<close>\<close>
     seqs [Lit CHR ''|'', Star sp, Group 1 shells, Star sp, Eol],
     \<comment> \<open>\<^verbatim>\<open>\bnc\b\<close> to \<^verbatim>\<open>\brsync\b\<close>\<close>
     wordb ''nc'',
     wordb ''ncat'',
     wordb ''netcat'',
     wordb ''telnet'',
     wordb ''ftp'',
     wordb ''ssh'',
     wordb ''scp'',
     wordb ''rsync'',
     \<comment> \<open>\<^verbatim>\<open>\bkill\s+-9\<close>\<close>
     seqs [WordB, lit ''kill'', Plus sp, lit ''-9''],
     \<comment> \<open>\<^verbatim>\<open>\bkillall\b\<close> to \<^verbatim>\<open>\bhalt\b\<close>\<close>
     wordb ''killall'',
     wordb ''pkill'',
     wordb ''shutdown'',
     wordb ''reboot'',
     wordb ''halt'',
     \<comment> \<open>\<^verbatim>\<open>\binit\s+[06]\b\<close>\<close>
     seqs [WordB, lit ''init'', Plus sp, CSet [C CHR ''0'', C CHR ''6''], WordB],
     \<comment> \<open>\<^verbatim>\<open>\bmount\b\<close> to \<^verbatim>\<open>\bfsck\b\<close>\<close>
     wordb ''mount'',
     wordb ''umount'',
     wordb ''fdisk'',
     wordb ''mkfs'',
     wordb ''fsck'',
     \<comment> \<open>a backquote, \<^verbatim>\<open>[^.]+\<close> with the backquote for the dot, a backquote\<close>
     seqs [Lit (CHR 0x60), Plus (NSet [C (CHR 0x60)]), Lit (CHR 0x60)],
     \<comment> \<open>\<^verbatim>\<open>\$\([^)]+\)\<close>\<close>
     seqs [lit ''$('', Plus (NSet [C CHR '')'']), Lit CHR '')''],
     \<comment> \<open>\<^verbatim>\<open>\beval\b\<close>\<close>
     wordb ''eval'',
     \<comment> \<open>\<^verbatim>\<open>:\(\)\<close>\<close>
     lit '':()'',
     \<comment> \<open>\<^verbatim>\<open>fork\(\)\<close>\<close>
     lit ''fork()'',
     \<comment> \<open>\<^verbatim>\<open>\bwhile\s+true\b\<close>\<close>
     seqs [WordB, lit ''while'', Plus sp, lit ''true'', WordB],
     \<comment> \<open>\<^verbatim>\<open>\byes\b.*>\s*/dev/null\<close>\<close>
     seqs [WordB, lit ''yes'', WordB, dots, Lit CHR ''>'', Star sp, lit ''/dev/null''],
     \<comment> \<open>\<^verbatim>\<open>\biptables\b\<close>, \<^verbatim>\<open>\bifconfig\b\<close>\<close>
     wordb ''iptables'',
     wordb ''ifconfig'',
     \<comment> \<open>\<^verbatim>\<open>>>?\s*/etc/\<close>\<close>
     seqs [Lit CHR ''>'', Opt (Lit CHR ''>''), Star sp, lit ''/etc/''],
     \<comment> \<open>\<^verbatim>\<open>>\s*/etc/\<close>\<close>
     seqs [Lit CHR ''>'', Star sp, lit ''/etc/''],
     \<comment> \<open>\<^verbatim>\<open>\bcat\b.*>\s*/etc/\<close>\<close>
     seqs [WordB, lit ''cat'', WordB, dots, Lit CHR ''>'', Star sp, lit ''/etc/''],
     \<comment> \<open>\<^verbatim>\<open>\becho\b.*>\s*/etc/\<close>\<close>
     seqs [WordB, lit ''echo'', WordB, dots, Lit CHR ''>'', Star sp, lit ''/etc/''],
     \<comment> \<open>\<^verbatim>\<open>[a-z]\<close>, two double quotes, \<^verbatim>\<open>[a-z]\<close>\<close>
     seqs [CSet [R CHR ''a'' CHR ''z''], Lit (CHR 0x22), Lit (CHR 0x22),
           CSet [R CHR ''a'' CHR ''z'']],
     \<comment> \<open>\<^verbatim>\<open>\b(cp|mv|ln)\b.*\.\./\<close>\<close>
     seqs [WordB, Group 1 (alts [lit ''cp'', lit ''mv'', lit ''ln'']), WordB, dots, lit ''../''],
     \<comment> \<open>\<^verbatim>\<open>\bln\s+-s\<close>\<close>
     seqs [WordB, lit ''ln'', Plus sp, lit ''-s'']
   ]\<close>

definition ESCAPE_PATTERNS :: \<open>regex list\<close> where
  \<open>ESCAPE_PATTERNS = [
     \<comment> \<open>\<^verbatim>\<open>\bcd\b\<close>, \<^verbatim>\<open>\bpushd\b\<close>, \<^verbatim>\<open>\bpopd\b\<close>\<close>
     wordb ''cd'',
     wordb ''pushd'',
     wordb ''popd'',
     \<comment> \<open>\<^verbatim>\<open>export\s+PATH=\<close>, \<^verbatim>\<open>export\s+HOME=\<close>, \<^verbatim>\<open>export\s+PWD=\<close>\<close>
     seqs [lit ''export'', Plus sp, lit ''PATH=''],
     seqs [lit ''export'', Plus sp, lit ''HOME=''],
     seqs [lit ''export'', Plus sp, lit ''PWD=''],
     \<comment> \<open>\<^verbatim>\<open>~/\<close>, \<^verbatim>\<open>\$HOME\<close>, \<^verbatim>\<open>\$\{HOME\}\<close>\<close>
     lit ''~/'',
     lit ''$HOME'',
     lit ''${HOME}'',
     \<comment> \<open>\<^verbatim>\<open>\.\.[/\\]\<close>\<close>
     seqs [lit ''..'', CSet [C CHR ''/'', C (CHR 0x5C)]],
     \<comment> \<open>\<^verbatim>\<open>\$\([^)]+\)\<close>\<close>
     seqs [lit ''$('', Plus (NSet [C CHR '')'']), Lit CHR '')''],
     \<comment> \<open>a backquote, \<^verbatim>\<open>[^.]+\<close> with the backquote for the dot, a backquote\<close>
     seqs [Lit (CHR 0x60), Plus (NSet [C (CHR 0x60)]), Lit (CHR 0x60)]
   ]\<close>

record SafetyConfig =
  allowed_patterns :: "regex list"

record SafetyResult =
  safe :: bool
  reason :: string

text \<open>\<^verbatim>\<open>_is_allowed\<close>: the allow-list is searched in the stripped command as typed.\<close>

definition is_allowed :: "string \<Rightarrow> SafetyConfig option \<Rightarrow> bool" where
  "is_allowed command config =
     (let normalized = strip command;
          all_allowed = DEFAULT_ALLOWED_PATTERNS
            @ (case config of None \<Rightarrow> [] | Some c \<Rightarrow> allowed_patterns c)
      in list_ex (\<lambda>pattern. re_search pattern normalized) all_allowed)"

definition is_dangerous :: "string \<Rightarrow> SafetyConfig option \<Rightarrow> bool" where
  "is_dangerous command config =
     (let normalized = lower (strip command) in
      if is_allowed command config then False
      else list_ex (\<lambda>pattern. re_search pattern normalized) DANGEROUS_PATTERNS)"

text \<open>
  \<^verbatim>\<open>_strip_heredoc_content\<close>. The pattern is
  \<^verbatim>\<open><<\s*['"]?(\w+)['"]?[\s\S]*?\n\1\<close>, compiled with \<^verbatim>\<open>re.MULTILINE\<close>.
\<close>

definition heredoc_regex :: regex where
  "heredoc_regex =
     seqs [lit ''<<'', Star sp, Opt (CSet [C (CHR 0x27), C (CHR 0x22)]),
           Group 1 (Plus (CSet [W])), Opt (CSet [C (CHR 0x27), C (CHR 0x22)]),
           LazyStar (CSet [S, NS]), Lit (CHR 0x0A), Backref 1]"

definition strip_heredoc_content :: "string \<Rightarrow> string" where
  "strip_heredoc_content command =
     sub_from True heredoc_regex ''<<HEREDOC_PLACEHOLDER'' None 0 command"

definition is_escaping_workspace :: "string \<Rightarrow> bool" where
  "is_escaping_workspace command =
     (let command_without_heredocs = strip_heredoc_content command in
      list_ex (\<lambda>pattern. re_search pattern command_without_heredocs) ESCAPE_PATTERNS)"

text \<open>\<^verbatim>\<open>s.split()\<close>: the fields between runs of white space.\<close>

fun split_ws :: "string \<Rightarrow> string list" where
  "split_ws [] = []"
| "split_ws (c # cs) =
     (if is_space c then split_ws cs
      else (case cs of
              [] \<Rightarrow> [[c]]
            | d # ds \<Rightarrow>
                if is_space d then [c] # split_ws cs
                else (case split_ws cs of [] \<Rightarrow> [[c]] | w # ws \<Rightarrow> (c # w) # ws)))"

definition get_base_command :: "string \<Rightarrow> string" where
  "get_base_command command = (case split_ws (strip command) of [] \<Rightarrow> [] | w # _ \<Rightarrow> w)"

text \<open>
  The pattern of the pipe-to-shell guidance,
  \<^verbatim>\<open>(?:curl|wget)\b.*\|\s*(?:sh|bash|zsh|fish)\b\<close>.
\<close>

definition pipe_to_shell :: regex where
  "pipe_to_shell =
     seqs [Alt (lit ''curl'') (lit ''wget''), WordB, dots, Lit CHR ''|'', Star sp, shells, WordB]"

definition is_command_safe :: "string \<Rightarrow> SafetyConfig option \<Rightarrow> SafetyResult" where
  "is_command_safe command config =
     (if is_dangerous command config then
        (let base_cmd = get_base_command command in
         if re_search pipe_to_shell (lower command)
         then \<lparr>safe = False,
               reason = ''Piping downloads to shell is dangerous. Download to a file first ''
                 @ ''(e.g., '' @ [CHR 0x27] @ ''curl -O <url>'' @ [CHR 0x27]
                 @ ''), inspect it, then execute if safe.''\<rparr>
         else \<lparr>safe = False,
               reason = ''dangerous command '' @ [CHR 0x27] @ base_cmd @ [CHR 0x27]
                 @ '' is not allowed''\<rparr>)
      else if is_escaping_workspace command then
        (if re_search (wordb ''cd'') command
         then \<lparr>safe = False, reason = ''Directory change commands are not allowed''\<rparr>
         else if re_search (lit ''~/'') command \<or> re_search (lit ''$HOME'') command
         then \<lparr>safe = False, reason = ''Home directory references are not allowed''\<rparr>
         else if re_search (seqs [lit ''..'', CSet [C CHR ''/'', C (CHR 0x5C)]]) command
         then \<lparr>safe = False, reason = ''Parent directory traversal is not allowed''\<rparr>
         else \<lparr>safe = False, reason = ''Command attempts to escape workspace''\<rparr>)
      else \<lparr>safe = True, reason = []\<rparr>)"

section \<open>The in-memory backend (backends/memory.py)\<close>

text \<open>
  \<^verbatim>\<open>self._store\<close> is a Python \<^verbatim>\<open>dict\<close>: keys are unique and keep their insertion order.
  It is an association list here, with the three dictionary operations the backend uses.
\<close>

type_synonym store = "(string \<times> content) list"

definition dict_get :: "store \<Rightarrow> string \<Rightarrow> content option" where
  "dict_get d k = map_of d k"

definition dict_has :: "store \<Rightarrow> string \<Rightarrow> bool" where
  "dict_has d k = (map_of d k \<noteq> None)"

fun dict_set :: "string \<Rightarrow> content \<Rightarrow> store \<Rightarrow> store" where
  "dict_set k v [] = [(k, v)]"
| "dict_set k v ((k', v') # d) = (if k' = k then (k, v) # d else (k', v') # dict_set k v d)"

text \<open>\<^verbatim>\<open>del d[k]\<close> raises \<^verbatim>\<open>KeyError\<close> when the key is missing.\<close>

definition dict_del :: "string \<Rightarrow> store \<Rightarrow> error + store" where
  "dict_del k d = (if dict_has d k then Inr (filter (\<lambda>kv. fst kv \<noteq> k) d) else Inl (KeyError k))"

record MemoryBackend =
  root_dir :: string
  store :: store

text \<open>
  The encoder and decoder behind \<^verbatim>\<open>str.encode("utf-8")\<close> and \<^verbatim>\<open>bytes.decode("utf-8")\<close>
  are parameters; decoding fails on bytes that are not UTF-8.
\<close>

record codec =
  utf8_encode :: "string \<Rightarrow> byte list"
  utf8_decode :: "byte list \<Rightarrow> string option"

definition key_not_found :: "string \<Rightarrow> string \<Rightarrow> error" where
  "key_not_found key operation = BackendError (''Key not found: '' @ key) KEY_NOT_FOUND (Some operation)"

text \<open>
  Every operation returns its outcome and the backend afterwards. \<open>options\<close> is
  \<^verbatim>\<open>ReadOptions | None\<close>, reduced to its one field.
\<close>

definition memory_read ::
  "codec \<Rightarrow> MemoryBackend \<Rightarrow> string \<Rightarrow> encoding option \<Rightarrow> (error + content) \<times> MemoryBackend" where
  "memory_read cd mb key options =
     (case dict_get (store mb) key of
        None \<Rightarrow> (Inl (key_not_found key ''read''), mb)
      | Some v \<Rightarrow>
          if options = Some Buffer then
            (case v of
               Str t \<Rightarrow> (Inr (Bytes (utf8_encode cd t)), mb)
             | Bytes b \<Rightarrow> (Inr (Bytes b), mb))
          else
            (case v of
               Bytes b \<Rightarrow>
                 (case utf8_decode cd b of
                    None \<Rightarrow> (Inl UnicodeDecodeError, mb)
                  | Some t \<Rightarrow> (Inr (Str t), mb))
             | Str t \<Rightarrow> (Inr (Str t), mb)))"

definition memory_write ::
  "MemoryBackend \<Rightarrow> string \<Rightarrow> content \<Rightarrow> (error + unit) \<times> MemoryBackend" where
  "memory_write mb key c = (Inr (), mb\<lparr>store := dict_set key c (store mb)\<rparr>)"

definition memory_rename ::
  "MemoryBackend \<Rightarrow> string \<Rightarrow> string \<Rightarrow> (error + unit) \<times> MemoryBackend" where
  "memory_rename mb old_key new_key =
     (case dict_get (store mb) old_key of
        None \<Rightarrow> (Inl (key_not_found old_key ''rename''), mb)
      | Some v \<Rightarrow>
          (case dict_del old_key (dict_set new_key v (store mb)) of
             Inl e \<Rightarrow> (Inl e, mb\<lparr>store := dict_set new_key v (store mb)\<rparr>)
           | Inr d \<Rightarrow> (Inr (), mb\<lparr>store := d\<rparr>)))"

text \<open>
  The loop \<^verbatim>\<open>for k in keys_to_delete: del self._store[k]\<close>: a \<^verbatim>\<open>KeyError\<close> leaves
  the keys deleted so far deleted.
\<close>

fun delete_keys :: "string list \<Rightarrow> store \<Rightarrow> error option \<times> store" where
  "delete_keys [] d = (None, d)"
| "delete_keys (k # ks) d =
     (case dict_del k d of Inl e \<Rightarrow> (Some e, d) | Inr d' \<Rightarrow> delete_keys ks d')"

definition memory_rm ::
  "MemoryBackend \<Rightarrow> string \<Rightarrow> bool \<Rightarrow> bool \<Rightarrow> (error + unit) \<times> MemoryBackend" where
  "memory_rm mb key recursive force =
     (if recursive then
        (let prefix = (if endswith key ''/'' then key else key @ ''/'');
             keys_to_delete =
               (if dict_has (store mb) key then [key] else [])
               @ filter (\<lambda>k. startswith k prefix) (map fst (store mb))
         in case delete_keys keys_to_delete (store mb) of
              (Some e, d) \<Rightarrow> (Inl e, mb\<lparr>store := d\<rparr>)
            | (None, d) \<Rightarrow>
                if \<not> force \<and> keys_to_delete = []
                then (Inl (key_not_found key ''rm''), mb\<lparr>store := d\<rparr>)
                else (Inr (), mb\<lparr>store := d\<rparr>))
      else if \<not> dict_has (store mb) key then
        (if \<not> force then (Inl (key_not_found key ''rm''), mb) else (Inr (), mb))
      else
        (case dict_del key (store mb) of
           Inl e \<Rightarrow> (Inl e, mb)
         | Inr d \<Rightarrow> (Inr (), mb\<lparr>store := d\<rparr>)))"

text \<open>\<^verbatim>\<open>readdir\<close>: the first segment of every key under the prefix, sorted, each once.\<close>

definition immediate_child :: "string \<Rightarrow> string" where
  "immediate_child relative_path = (case split CHR ''/'' relative_path of [] \<Rightarrow> [] | w # _ \<Rightarrow> w)"

definition memory_readdir :: "MemoryBackend \<Rightarrow> string \<Rightarrow> (error + string list) \<times> MemoryBackend" where
  "memory_readdir mb prefix =
     (let is_root = (prefix = [] \<or> prefix = ''.'' \<or> prefix = ''/'');
          normalized_prefix =
            (if is_root then [] else if endswith prefix ''/'' then prefix else prefix @ ''/'');
          relative_paths =
            (if is_root then map fst (store mb)
             else map (drop (length normalized_prefix))
                    (filter (\<lambda>k. startswith k normalized_prefix) (map fst (store mb))));
          children = filter (\<lambda>c. c \<noteq> []) (map immediate_child relative_paths)
      in (Inr (sort (remdups children)), mb))"

definition memory_mkdir :: "MemoryBackend \<Rightarrow> string \<Rightarrow> bool \<Rightarrow> (error + unit) \<times> MemoryBackend" where
  "memory_mkdir mb path recursive = (Inr (), mb)"

definition memory_touch :: "MemoryBackend \<Rightarrow> string \<Rightarrow> (error + unit) \<times> MemoryBackend" where
  "memory_touch mb key =
     (if \<not> dict_has (store mb) key
      then (Inr (), mb\<lparr>store := dict_set key (Str []) (store mb)\<rparr>)
      else (Inr (), mb))"

definition memory_exists :: "MemoryBackend \<Rightarrow> string \<Rightarrow> (error + bool) \<times> MemoryBackend" where
  "memory_exists mb key = (Inr (dict_has (store mb) key), mb)"

definition memory_stat ::
  "codec \<Rightarrow> timestamp \<Rightarrow> MemoryBackend \<Rightarrow> string \<Rightarrow> (error + FileStat) \<times> MemoryBackend" where
  "memory_stat cd now mb key =
     (case dict_get (store mb) key of
        None \<Rightarrow> (Inl (key_not_found key ''stat''), mb)
      | Some v \<Rightarrow>
          (Inr \<lparr>is_file = True, is_directory = False,
                size' = (case v of Str t \<Rightarrow> length (utf8_encode cd t) | Bytes b \<Rightarrow> length b),
                modified = now\<rparr>, mb))"

section \<open>The local filesystem backend (backends/local.py)\<close>

text \<open>
  \<^verbatim>\<open>os.path.abspath\<close> on a POSIX host; \<open>cwd\<close> is the working directory of the process.
\<close>

definition abspath :: "string \<Rightarrow> string \<Rightarrow> string" where
  "abspath cwd path = normpath (if isabs path then path else join cwd path)"

text \<open>\<^verbatim>\<open>LocalFilesystemBackend._resolve_path\<close>.\<close>

definition resolve_path :: "string \<Rightarrow> string \<Rightarrow> string \<Rightarrow> error + string" where
  "resolve_path cwd rootd relative_path =
     (case validate_within_boundary relative_path rootd of
        Inl e \<Rightarrow> Inl e
      | Inr combined \<Rightarrow> Inr (abspath cwd combined))"

text \<open>
  The filesystem is a state of some type \<open>'fs\<close>, and the calls to the operating system
  inside each operation are parameters: each takes the resolved path and the filesystem
  and gives its result (\<open>Inl\<close> the text of the \<^verbatim>\<open>OSError\<close>) and the filesystem afterwards.
  \<open>sys_rm\<close> is the body of the \<^verbatim>\<open>try\<close> block of \<^verbatim>\<open>rm\<close>, which tells a missing file
  from other failures. \<open>sys_read\<close> is the body of the \<^verbatim>\<open>try\<close> block of \<^verbatim>\<open>read\<close>: a
  text read of bytes that are not UTF-8 raises \<^verbatim>\<open>UnicodeDecodeError\<close>, which is no
  \<^verbatim>\<open>OSError\<close> and leaves \<^verbatim>\<open>read\<close> as it is.
\<close>

datatype rm_failure = FileNotFoundError | OtherOSError string

datatype read_failure = DecodeError | ReadOSError string

record 'fs os_calls =
  sys_read :: "string \<Rightarrow> encoding \<Rightarrow> 'fs \<Rightarrow> (read_failure + content) \<times> 'fs"
  sys_write :: "string \<Rightarrow> content \<Rightarrow> 'fs \<Rightarrow> (string + unit) \<times> 'fs"
  sys_rename :: "string \<Rightarrow> string \<Rightarrow> 'fs \<Rightarrow> (string + unit) \<times> 'fs"
  sys_rm :: "string \<Rightarrow> bool \<Rightarrow> bool \<Rightarrow> 'fs \<Rightarrow> (rm_failure + unit) \<times> 'fs"
  sys_listdir :: "string \<Rightarrow> 'fs \<Rightarrow> (string + string list) \<times> 'fs"
  sys_makedirs :: "string \<Rightarrow> bool \<Rightarrow> 'fs \<Rightarrow> (string + unit) \<times> 'fs"
  sys_touch :: "string \<Rightarrow> 'fs \<Rightarrow> (string + unit) \<times> 'fs"
  sys_exists :: "string \<Rightarrow> 'fs \<Rightarrow> bool \<times> 'fs"
  sys_stat :: "string \<Rightarrow> 'fs \<Rightarrow> (string + FileStat) \<times> 'fs"

definition local_read ::
  "'fs os_calls \<Rightarrow> string \<Rightarrow> string \<Rightarrow> 'fs \<Rightarrow> string \<Rightarrow> encoding option \<Rightarrow> (error + content) \<times> 'fs" where
  "local_read os cwd rootd fs relative_path options =
     (case resolve_path cwd rootd relative_path of
        Inl e \<Rightarrow> (Inl e, fs)
      | Inr full_path \<Rightarrow>
          (case sys_read os full_path (case options of None \<Rightarrow> Utf8 | Some enc \<Rightarrow> enc) fs of
             (Inl (ReadOSError msg), fs') \<Rightarrow>
               (Inl (BackendError (''Failed to read file: '' @ relative_path) READ_FAILED (Some msg)), fs')
           | (Inl DecodeError, fs') \<Rightarrow> (Inl UnicodeDecodeError, fs')
           | (Inr c, fs') \<Rightarrow> (Inr c, fs')))"

definition local_write ::
  "'fs os_calls \<Rightarrow> string \<Rightarrow> string \<Rightarrow> 'fs \<Rightarrow> string \<Rightarrow> content \<Rightarrow> (error + unit) \<times> 'fs" where
  "local_write os cwd rootd fs relative_path c =
     (case resolve_path cwd rootd relative_path of
        Inl e \<Rightarrow> (Inl e, fs)
      | Inr full_path \<Rightarrow>
          (case sys_write os full_path c fs of
             (Inl msg, fs') \<Rightarrow>
               (Inl (BackendError (''Failed to write file: '' @ relative_path) WRITE_FAILED (Some msg)), fs')
           | (Inr u, fs') \<Rightarrow> (Inr (), fs')))"

definition local_rename ::
  "'fs os_calls \<Rightarrow> string \<Rightarrow> string \<Rightarrow> 'fs \<Rightarrow> string \<Rightarrow> string \<Rightarrow> (error + unit) \<times> 'fs" where
  "local_rename os cwd rootd fs old_path new_path =
     (case resolve_path cwd rootd old_path of
        Inl e \<Rightarrow> (Inl e, fs)
      | Inr full_old \<Rightarrow>
          (case resolve_path cwd rootd new_path of
             Inl e \<Rightarrow> (Inl e, fs)
           | Inr full_new \<Rightarrow>
               (case sys_rename os full_old full_new fs of
                  (Inl msg, fs') \<Rightarrow>
                    (Inl (BackendError (''Failed to rename '' @ old_path @ '' to '' @ new_path)
                            WRITE_FAILED (Some msg)), fs')
                | (Inr u, fs') \<Rightarrow> (Inr (), fs'))))"

definition local_rm ::
  "'fs os_calls \<Rightarrow> string \<Rightarrow> string \<Rightarrow> 'fs \<Rightarrow> string \<Rightarrow> bool \<Rightarrow> bool \<Rightarrow> (error + unit) \<times> 'fs" where
  "local_rm os cwd rootd fs relative_path recursive force =
     (case resolve_path cwd rootd relative_path of
        Inl e \<Rightarrow> (Inl e, fs)
      | Inr full_path \<Rightarrow>
          (case sys_rm os full_path recursive force fs of
             (Inl FileNotFoundError, fs') \<Rightarrow>
               (if \<not> force
                then (Inl (BackendError (''Failed to delete: '' @ relative_path) WRITE_FAILED
                             (Some ''File not found'')), fs')
                else (Inr (), fs'))
           | (Inl (OtherOSError msg), fs') \<Rightarrow>
               (Inl (BackendError (''Failed to delete: '' @ relative_path) WRITE_FAILED (Some msg)), fs')
           | (Inr u, fs') \<Rightarrow> (Inr (), fs')))"

definition local_readdir ::
  "'fs os_calls \<Rightarrow> string \<Rightarrow> string \<Rightarrow> 'fs \<Rightarrow> string \<Rightarrow> (error + string list) \<times> 'fs" where
  "local_readdir os cwd rootd fs relative_path =
     (case resolve_path cwd rootd relative_path of
        Inl e \<Rightarrow> (Inl e, fs)
      | Inr full_path \<Rightarrow>
          (case sys_listdir os full_path fs of
             (Inl msg, fs') \<Rightarrow>
               (Inl (BackendError (''Failed to read directory: '' @ relative_path) LS_FAILED (Some msg)), fs')
           | (Inr names, fs') \<Rightarrow> (Inr (sort names), fs')))"

definition local_mkdir ::
  "'fs os_calls \<Rightarrow> string \<Rightarrow> string \<Rightarrow> 'fs \<Rightarrow> string \<Rightarrow> bool \<Rightarrow> (error + unit) \<times> 'fs" where
  "local_mkdir os cwd rootd fs relative_path recursive =
     (case resolve_path cwd rootd relative_path of
        Inl e \<Rightarrow> (Inl e, fs)
      | Inr full_path \<Rightarrow>
          (case sys_makedirs os full_path recursive fs of
             (Inl msg, fs') \<Rightarrow>
               (Inl (BackendError (''Failed to create directory: '' @ relative_path) WRITE_FAILED
                       (Some msg)), fs')
           | (Inr u, fs') \<Rightarrow> (Inr (), fs')))"

text \<open>\<^verbatim>\<open>touch\<close> and \<^verbatim>\<open>exists\<close> have no \<^verbatim>\<open>try\<close>: an \<^verbatim>\<open>OSError\<close> leaves as it is.\<close>

definition local_touch ::
  "'fs os_calls \<Rightarrow> string \<Rightarrow> string \<Rightarrow> 'fs \<Rightarrow> string \<Rightarrow> (error + unit) \<times> 'fs" where
  "local_touch os cwd rootd fs relative_path =
     (case resolve_path cwd rootd relative_path of
        Inl e \<Rightarrow> (Inl e, fs)
      | Inr full_path \<Rightarrow>
          (case sys_touch os full_path fs of
             (Inl msg, fs') \<Rightarrow> (Inl (OSError msg), fs')
           | (Inr u, fs') \<Rightarrow> (Inr (), fs')))"

definition local_exists ::
  "'fs os_calls \<Rightarrow> string \<Rightarrow> string \<Rightarrow> 'fs \<Rightarrow> string \<Rightarrow> (error + bool) \<times> 'fs" where
  "local_exists os cwd rootd fs relative_path =
     (case resolve_path cwd rootd relative_path of
        Inl e \<Rightarrow> (Inl e, fs)
      | Inr full_path \<Rightarrow> (case sys_exists os full_path fs of (b, fs') \<Rightarrow> (Inr b, fs')))"

definition local_stat ::
  "'fs os_calls \<Rightarrow> string \<Rightarrow> string \<Rightarrow> 'fs \<Rightarrow> string \<Rightarrow> (error + FileStat) \<times> 'fs" where
  "local_stat os cwd rootd fs relative_path =
     (case resolve_path cwd rootd relative_path of
        Inl e \<Rightarrow> (Inl e, fs)
      | Inr full_path \<Rightarrow>
          (case sys_stat os full_path fs of
             (Inl msg, fs') \<Rightarrow>
               (Inl (BackendError (''Failed to stat path: '' @ relative_path) READ_FAILED (Some msg)), fs')
           | (Inr st, fs') \<Rightarrow> (Inr st, fs')))"

text \<open>
  An operating system to try the operations on: the filesystem is the number of calls
  made so far, and every call counts itself.
\<close>

definition counting_os :: "nat os_calls" where
  "counting_os =
     \<lparr>sys_read = (\<lambda>path enc n. (Inl (ReadOSError ''no such file''), Suc n)),
      sys_write = (\<lambda>path c n. (Inr (), Suc n)),
      sys_rename = (\<lambda>old new n. (Inr (), Suc n)),
      sys_rm = (\<lambda>path recursive force n. (Inr (), Suc n)),
      sys_listdir = (\<lambda>path n. (Inr [], Suc n)),
      sys_makedirs = (\<lambda>path exist_ok n. (Inr (), Suc n)),
      sys_touch = (\<lambda>path n. (Inr (), Suc n)),
      sys_exists = (\<lambda>path n. (False, Suc n)),
      sys_stat = (\<lambda>path n. (Inl ''no such file'', Suc n))\<rparr>"

section \<open>Connection status manager (backends/status.py)\<close>

record 'x StatusChangeEvent =
  from_status :: ConnectionStatus
  to_status :: ConnectionStatus
  timestamp :: timestamp
  error :: "'x option"

text \<open>
  \<^verbatim>\<open>self._listeners\<close> is a Python \<^verbatim>\<open>set\<close> of callbacks: a callback is held once however
  often it is added, and the set has no order of its own. Listeners are values of a type
  \<open>'l\<close>.
\<close>

record 'l ConnectionStatusManager =
  status :: ConnectionStatus
  listeners :: "'l fset"

definition new_manager :: "ConnectionStatus \<Rightarrow> 'l ConnectionStatusManager" where
  "new_manager initial_status = \<lparr>status = initial_status, listeners = {||}\<rparr>"

text \<open>
  What a call of a listener does: it returns, it raises an \<^verbatim>\<open>Exception\<close>, or it raises a
  \<^verbatim>\<open>BaseException\<close> that is not an \<^verbatim>\<open>Exception\<close>, which \<^verbatim>\<open>except Exception\<close> lets through.
\<close>

datatype 'x signal = Returns | RaisesException 'x | RaisesBaseException 'x

text \<open>
  The loop of \<^verbatim>\<open>set_status\<close> over \<^verbatim>\<open>list(self._listeners)\<close>. A listener \<open>l\<close> called with
  the event acts on the world outside the manager, a state of type \<open>'w\<close>, through
  \<open>call l event\<close>. The result is the exception that leaves the loop, if any, the calls
  made in their order, and the world afterwards.
\<close>

fun notify ::
  "('l \<Rightarrow> 'x StatusChangeEvent \<Rightarrow> 'w \<Rightarrow> 'x signal \<times> 'w) \<Rightarrow> 'l list \<Rightarrow> 'x StatusChangeEvent \<Rightarrow> 'w
     \<Rightarrow> 'x option \<times> ('l \<times> 'x StatusChangeEvent) list \<times> 'w" where
  "notify call [] event w = (None, [], w)"
| "notify call (l # ls) event w =
     (case call l event w of
        (RaisesBaseException x, w') \<Rightarrow> (Some x, [(l, event)], w')
      | (_, w') \<Rightarrow>
          (case notify call ls event w' of (r, calls, w'') \<Rightarrow> (r, (l, event) # calls, w'')))"

text \<open>
  \<^verbatim>\<open>set_status\<close>. \<open>iteration\<close> gives the order in which Python iterates over a set;
  \<open>now\<close> is the reading of the clock.
\<close>

definition set_status ::
  "('l fset \<Rightarrow> 'l list) \<Rightarrow> ('l \<Rightarrow> 'x StatusChangeEvent \<Rightarrow> 'w \<Rightarrow> 'x signal \<times> 'w) \<Rightarrow> timestamp
     \<Rightarrow> 'l ConnectionStatusManager \<Rightarrow> ConnectionStatus \<Rightarrow> 'x option \<Rightarrow> 'w
     \<Rightarrow> ('x option \<times> ('l \<times> 'x StatusChangeEvent) list \<times> 'w) \<times> 'l ConnectionStatusManager" where
  "set_status iteration call now m new_status err w =
     (if status m = new_status then ((None, [], w), m)
      else
        let event = \<lparr>from_status = status m, to_status = new_status, timestamp = now, error = err\<rparr>;
            m' = m\<lparr>status := new_status\<rparr>
        in (notify call (iteration (listeners m')) event w, m'))"

text \<open>
  \<^verbatim>\<open>on_status_change\<close> adds the callback and returns a closure that discards it; the
  closure is \<open>unsubscribe cb\<close>.
\<close>

definition on_status_change :: "'l ConnectionStatusManager \<Rightarrow> 'l \<Rightarrow> 'l ConnectionStatusManager" where
  "on_status_change m cb = m\<lparr>listeners := finsert cb (listeners m)\<rparr>"

definition unsubscribe :: "'l \<Rightarrow> 'l ConnectionStatusManager \<Rightarrow> 'l ConnectionStatusManager" where
  "unsubscribe cb m = m\<lparr>listeners := listeners m |-| {|cb|}\<rparr>"

definition clear_listeners :: "'l ConnectionStatusManager \<Rightarrow> 'l ConnectionStatusManager" where
  "clear_listeners m = m\<lparr>listeners := {||}\<rparr>"

text \<open>What an iteration order must do: list every element of the set once.\<close>

definition enumerates :: "('l fset \<Rightarrow> 'l list) \<Rightarrow> bool" where
  "enumerates iteration = (\<forall>A. fset_of_list (iteration A) = A \<and> distinct (iteration A))"

section \<open>Backend pool manager (pool.py)\<close>

text \<open>
  Backends and \<^verbatim>\<open>_PooledBackend\<close> objects are objects on the heap: the release closure
  keeps its \<^verbatim>\<open>pooled\<close> object after the pool has replaced it under its key. Both kinds
  are addressed by numbers; \<open>next_backend\<close> and \<open>next_pooled\<close> are the next free
  addresses. Of a backend the pool reads the status only.
\<close>

record pooled =
  backend :: nat
  in_use :: int
  last_used :: timestamp

record PoolManager =
  backend_status :: "nat \<Rightarrow> ConnectionStatus"
  pooled_objs :: "nat \<Rightarrow> pooled"
  backends :: "string \<rightharpoonup> nat"
  next_backend :: nat
  next_pooled :: nat

text \<open>
  \<^verbatim>\<open>PoolManagerConfig\<close>, with what the pool uses of it: the factory, which gives a new
  backend for a configuration (here: the status the new backend starts in), and the
  default configuration.
\<close>

record 'v PoolManagerConfig =
  backend_factory :: "(string \<rightharpoonup> 'v) \<Rightarrow> ConnectionStatus"
  default_config :: "string \<rightharpoonup> 'v"

definition new_pool :: PoolManager where
  "new_pool = \<lparr>backend_status = (\<lambda>_. DESTROYED),
               pooled_objs = (\<lambda>_. \<lparr>backend = 0, in_use = 0, last_used = 0\<rparr>),
               backends = Map.empty, next_backend = 0, next_pooled = 0\<rparr>"

text \<open>
  The release function an acquisition returns: \<^verbatim>\<open>lambda: None\<close>, or the closure
  \<^verbatim>\<open>release\<close> over the pooled object at an address.
\<close>

datatype release_fn = NoRelease | Release nat

text \<open>The call of the factory: a new backend object on the heap.\<close>

definition construct :: "'v PoolManagerConfig \<Rightarrow> (string \<rightharpoonup> 'v) \<Rightarrow> PoolManager \<Rightarrow> nat \<times> PoolManager" where
  "construct config merged_config pm =
     (next_backend pm,
      pm\<lparr>backend_status := (backend_status pm)(next_backend pm := backend_factory config merged_config),
         next_backend := Suc (next_backend pm)\<rparr>)"

text \<open>
  \<^verbatim>\<open>self._backends.get(key)\<close> and the test
  \<^verbatim>\<open>not pooled or pooled.backend.status != ConnectionStatus.CONNECTED\<close>: the address of
  the pooled object to use again, if there is one.
\<close>

definition reusable :: "PoolManager \<Rightarrow> string \<Rightarrow> nat option" where
  "reusable pm k =
     (case backends pm k of
        None \<Rightarrow> None
      | Some a \<Rightarrow>
          if backend_status pm (backend (pooled_objs pm a)) \<noteq> CONNECTED then None else Some a)"

definition acquire_backend ::
  "'v PoolManagerConfig \<Rightarrow> timestamp \<Rightarrow> PoolManager \<Rightarrow> string option \<Rightarrow> (string \<rightharpoonup> 'v) option
     \<Rightarrow> (nat \<times> release_fn) \<times> PoolManager" where
  "acquire_backend config now pm key config_override =
     (let merged_config =
            default_config config ++ (case config_override of None \<Rightarrow> Map.empty | Some c \<Rightarrow> c)
      in case key of
           None \<Rightarrow> (case construct config merged_config pm of (b, pm') \<Rightarrow> ((b, NoRelease), pm'))
         | Some k \<Rightarrow>
             (let (a, pm1) =
                    (case reusable pm k of
                       None \<Rightarrow>
                         (case construct config merged_config pm of
                            (b, pm') \<Rightarrow>
                              (next_pooled pm',
                               pm'\<lparr>pooled_objs := (pooled_objs pm')
                                      (next_pooled pm' := \<lparr>backend = b, in_use = 0, last_used = now\<rparr>),
                                   backends := (backends pm')(k \<mapsto> next_pooled pm'),
                                   next_pooled := Suc (next_pooled pm')\<rparr>))
                     | Some a \<Rightarrow> (a, pm));
                  po = pooled_objs pm1 a;
                  pm2 = pm1\<lparr>pooled_objs := (pooled_objs pm1)
                              (a := po\<lparr>in_use := in_use po + 1, last_used := now\<rparr>)\<rparr>
              in ((backend po, Release a), pm2)))"

text \<open>A call of a release function.\<close>

fun release :: "timestamp \<Rightarrow> release_fn \<Rightarrow> PoolManager \<Rightarrow> PoolManager" where
  "release now NoRelease pm = pm"
| "release now (Release a) pm =
     pm\<lparr>pooled_objs := (pooled_objs pm)
           (a := (pooled_objs pm a)\<lparr>in_use := in_use (pooled_objs pm a) - 1, last_used := now\<rparr>)\<rparr>"

text \<open>
  What happens around a pool, one event after the other: a call of
  \<^verbatim>\<open>acquire_backend\<close>; a call of the release function that the n-th acquisition
  returned; a backend changing its status (its owner destroys it, a connection drops).
  A run keeps, beside the pool, the release functions and the backends returned so far
  and the release calls made.
\<close>

datatype 'v pool_event =
    Acquire "string option" "(string \<rightharpoonup> 'v) option" timestamp
  | InvokeRelease nat timestamp
  | StatusChange nat ConnectionStatus

record run_state =
  pool :: PoolManager
  handles :: "release_fn list"
  returned :: "nat list"
  invoked :: "nat list"

definition start :: run_state where
  "start = \<lparr>pool = new_pool, handles = [], returned = [], invoked = []\<rparr>"

fun step :: "'v PoolManagerConfig \<Rightarrow> run_state \<Rightarrow> 'v pool_event \<Rightarrow> run_state" where
  "step config rs (Acquire key config_override now) =
     (case acquire_backend config now (pool rs) key config_override of
        ((b, r), pm') \<Rightarrow> rs\<lparr>pool := pm', handles := handles rs @ [r], returned := returned rs @ [b]\<rparr>)"
| "step config rs (InvokeRelease i now) =
     (if i < length (handles rs)
      then rs\<lparr>pool := release now (handles rs ! i) (pool rs), invoked := invoked rs @ [i]\<rparr>
      else rs)"
| "step config rs (StatusChange b st) =
     rs\<lparr>pool := (pool rs)\<lparr>backend_status := (backend_status (pool rs))(b := st)\<rparr>\<rparr>"

definition run :: "'v PoolManagerConfig \<Rightarrow> run_state \<Rightarrow> 'v pool_event list \<Rightarrow> run_state" where
  "run config rs events = foldl (step config) rs events"

text \<open>The indices of the release calls in a list of events.\<close>

fun release_calls :: "'v pool_event list \<Rightarrow> nat list" where
  "release_calls [] = []"
| "release_calls (InvokeRelease i now # events) = i # release_calls events"
| "release_calls (_ # events) = release_calls events"

section \<open>Notions for stating the results on paths\<close>

text \<open>
  Properties of lists of path components, for the results on \<open>normpath\<close>: components
  that are neither empty nor a dot nor two dots; components without a separator;
  non-empty components without a separator.
\<close>

definition plain :: "string list \<Rightarrow> bool" where
  "plain xs = (\<forall>w \<in> set xs. w \<noteq> [] \<and> w \<noteq> ''.'' \<and> w \<noteq> ''..'')"

definition sepfree :: "string list \<Rightarrow> bool" where
  "sepfree xs = (\<forall>w \<in> set xs. CHR ''/'' \<notin> set w)"

definition solid :: "string list \<Rightarrow> bool" where
  "solid xs = (\<forall>w \<in> set xs. w \<noteq> [] \<and> CHR ''/'' \<notin> set w)"

section \<open>Notions for stating the results on the pool and the status manager\<close>

text \<open>The configuration \<^verbatim>\<open>{**default_config, **(config_override or {})}\<close> of a call.\<close>

definition merged :: "'v PoolManagerConfig \<Rightarrow> (string \<rightharpoonup> 'v) option \<Rightarrow> (string \<rightharpoonup> 'v)" where
  "merged config ov = default_config config ++ (case ov of None \<Rightarrow> Map.empty | Some c \<Rightarrow> c)"

text \<open>
  The addresses in use lie below the next free ones: every key of the pool holds a pooled
  object that has been allocated, whose backend has been allocated.
\<close>

definition wf_pool :: "PoolManager \<Rightarrow> bool" where
  "wf_pool pm = (\<forall>k a. backends pm k = Some a \<longrightarrow>
                   a < next_pooled pm \<and> backend (pooled_objs pm a) < next_backend pm)"

text \<open>An event that changes the status of the backend \<open>b\<close>.\<close>

fun changes_status :: "nat \<Rightarrow> 'v pool_event \<Rightarrow> bool" where
  "changes_status b (StatusChange b' st) = (b' = b)"
| "changes_status b _ = False"

text \<open>The key \<open>k\<close> holds a pooled object of the connected backend \<open>b\<close>.\<close>

definition holds :: "PoolManager \<Rightarrow> string \<Rightarrow> nat \<Rightarrow> bool" where
  "holds pm k b = (\<exists>a. backends pm k = Some a \<and> backend (pooled_objs pm a) = b
                       \<and> a < next_pooled pm \<and> b < next_backend pm
                       \<and> backend_status pm b = CONNECTED)"

text \<open>
  The bookkeeping of a run: the release functions handed out belong to allocated pooled
  objects, the release calls made are calls of functions handed out, and \<open>in_use\<close> of a
  pooled object is the number of acquisitions that returned its release function less
  the number of calls of these functions.
\<close>

definition accounted :: "run_state \<Rightarrow> bool" where
  "accounted rs =
     ((\<forall>a. Release a \<in> set (handles rs) \<longrightarrow> a < next_pooled (pool rs))
      \<and> (\<forall>i \<in> set (invoked rs). i < length (handles rs))
      \<and> (\<forall>a < next_pooled (pool rs).
            in_use (pooled_objs (pool rs) a)
              = int (length (filter (\<lambda>h. h = Release a) (handles rs)))
                - int (length (filter (\<lambda>i. handles rs ! i = Release a) (invoked rs)))))"

text \<open>
  Two factories to try the pool with: one whose backends start connected, as the local
  and the memory backend do, and one whose backends start disconnected, as the tests say
  of the remote backend.
\<close>

definition connected_config :: "unit PoolManagerConfig" where
  "connected_config = \<lparr>backend_factory = (\<lambda>merged_config. CONNECTED), default_config = Map.empty\<rparr>"

definition disconnected_config :: "unit PoolManagerConfig" where
  "disconnected_config =
     \<lparr>backend_factory = (\<lambda>merged_config. DISCONNECTED), default_config = Map.empty\<rparr>"

text \<open>
  To try the status manager with: listeners that are numbers, a set iterated in
  increasing order, and listeners that append their number to a log, of which number 1
  raises an \<^verbatim>\<open>Exception\<close> instead.
\<close>

definition sorted_iteration :: "nat fset \<Rightarrow> nat list" where
  "sorted_iteration A = sorted_list_of_fset A"

definition failing_listener ::
  "nat \<Rightarrow> string StatusChangeEvent \<Rightarrow> nat list \<Rightarrow> string signal \<times> nat list" where
  "failing_listener l event w =
     (if l = 1 then (RaisesException ''boom'', w) else (Returns, w @ [l]))"

section \<open>Path boundary validation: results\<close>

lemma split_no_sep: "w \<in> set (split d s) \<Longrightarrow> d \<notin> set w"
proof (induction s arbitrary: w)
  case Nil
  then show ?case by simp
next
  case (Cons c s)
  then show ?case
    by (cases "split d s") (auto split: if_splits)
qed

lemma split_not_Nil: "split d s \<noteq> []"
  by (induction s) (auto split: list.splits)

lemma split_word: "d \<notin> set w \<Longrightarrow> split d w = [w]"
  by (induction w) auto

lemma split_word_sep: "d \<notin> set w \<Longrightarrow> split d (w @ d # rest) = w # split d rest"
  by (induction w) auto

lemma split_sep_join:
  "comps \<noteq> [] \<Longrightarrow> \<forall>w \<in> set comps. CHR ''/'' \<notin> set w
   \<Longrightarrow> split CHR ''/'' (sep_join comps) = comps"
proof (induction comps rule: sep_join.induct)
  case 1
  then show ?case by simp
next
  case (2 x)
  then show ?case by (simp add: split_word)
next
  case (3 x y zs)
  then show ?case by (simp add: split_word_sep)
qed

lemma plain_butlast: "plain xs \<Longrightarrow> plain (butlast xs)"
  by (auto simp: plain_def dest: in_set_butlastD)

lemma plain_last: "plain xs \<Longrightarrow> xs \<noteq> [] \<Longrightarrow> last xs \<noteq> ''..''"
  by (auto simp: plain_def)

lemma norm_skip:
  "c = [] \<or> c = ''.'' \<Longrightarrow> norm_comps ini (c # xs) new = norm_comps ini xs new"
  by simp

lemma norm_push:
  "c \<noteq> [] \<Longrightarrow> c \<noteq> ''.'' \<Longrightarrow>
   c \<noteq> ''..'' \<or> (\<not> ini \<and> new = []) \<or> (new \<noteq> [] \<and> last new = ''..'')
   \<Longrightarrow> norm_comps ini (c # xs) new = norm_comps ini xs (new @ [c])"
  by simp

lemma norm_pop:
  "new \<noteq> [] \<Longrightarrow> last new \<noteq> ''..''
   \<Longrightarrow> norm_comps ini (''..'' # xs) new = norm_comps ini xs (butlast new)"
  by simp

lemma norm_drop: "norm_comps True (''..'' # xs) [] = norm_comps True xs []"
  by simp

lemma norm_skip_Nil: "norm_comps ini ([] # xs) new = norm_comps ini xs new"
  by simp

lemma norm_comps_append:
  "norm_comps ini (xs @ ys) new = norm_comps ini ys (norm_comps ini xs new)"
proof (induction xs arbitrary: new)
  case Nil
  then show ?case by simp
next
  case (Cons c xs)
  show ?case
    using Cons.IH by (simp only: append_Cons norm_comps.simps(2) if_distrib [of "norm_comps ini ys"] cong: if_cong)
qed

lemma norm_abs_plain: "plain st \<Longrightarrow> plain (norm_comps True xs st)"
proof (induction xs arbitrary: st)
  case Nil
  then show ?case by simp
next
  case (Cons c xs)
  consider (skip) "c = [] \<or> c = ''.''"
    | (push) "c \<noteq> []" "c \<noteq> ''.''" "c \<noteq> ''..''"
    | (pop) "c = ''..''" "st \<noteq> []"
    | (drop) "c = ''..''" "st = []"
    by blast
  then show ?case
  proof cases
    case skip
    then have "norm_comps True (c # xs) st = norm_comps True xs st"
      by (rule norm_skip)
    with Cons show ?thesis by simp
  next
    case push
    with Cons.prems have "plain (st @ [c])" by (auto simp: plain_def)
    moreover have "norm_comps True (c # xs) st = norm_comps True xs (st @ [c])"
      by (rule norm_push) (use push in auto)
    ultimately show ?thesis using Cons.IH by simp
  next
    case pop
    with Cons.prems have "last st \<noteq> ''..''" by (simp add: plain_last)
    with pop have "norm_comps True (c # xs) st = norm_comps True xs (butlast st)"
      using norm_pop [of st True xs] by simp
    with Cons.IH [OF plain_butlast [OF Cons.prems]] show ?thesis
      by simp
  next
    case drop
    then have "norm_comps True (c # xs) st = norm_comps True xs []"
      using norm_drop [of xs] by simp
    with Cons.IH [of "[]"] show ?thesis by (simp add: plain_def)
  qed
qed

lemma norm_plain_id: "plain xs \<Longrightarrow> norm_comps ini xs new = new @ xs"
proof (induction xs arbitrary: new)
  case Nil
  then show ?case by simp
next
  case (Cons c xs)
  then have c: "c \<noteq> []" "c \<noteq> ''.''" "c \<noteq> ''..''" and p: "plain xs"
    by (auto simp: plain_def)
  have "norm_comps ini (c # xs) new = norm_comps ini xs (new @ [c])"
    by (rule norm_push) (use c in auto)
  with Cons.IH [OF p] show ?case by simp
qed

lemma norm_abs_dots: "norm_comps True (replicate k ''..'' @ xs) [] = norm_comps True xs []"
  by (induction k) (simp_all only: replicate.simps append_Cons append_Nil norm_drop)

lemma norm_skip_empty: "norm_comps ini (replicate n [] @ xs) new = norm_comps ini xs new"
  by (induction n) (simp_all only: replicate.simps append_Cons append_Nil norm_skip_Nil)

lemma norm_rel_abs:
  "plain st \<Longrightarrow>
   \<exists>k'. norm_comps False xs (replicate k ''..'' @ st) = replicate k' ''..'' @ norm_comps True xs st"
proof (induction xs arbitrary: k st)
  case Nil
  then show ?case by auto
next
  case (Cons c xs)
  consider (skip) "c = [] \<or> c = ''.''"
    | (push) "c \<noteq> []" "c \<noteq> ''.''" "c \<noteq> ''..''"
    | (pop) "c = ''..''" "st \<noteq> []"
    | (drop) "c = ''..''" "st = []"
    by blast
  then show ?case
  proof cases
    case skip
    then have "norm_comps False (c # xs) (replicate k ''..'' @ st)
        = norm_comps False xs (replicate k ''..'' @ st)"
      and "norm_comps True (c # xs) st = norm_comps True xs st"
      by (rule norm_skip)+
    with Cons.IH [OF Cons.prems, of k] show ?thesis by simp
  next
    case push
    with Cons.prems have p: "plain (st @ [c])" by (auto simp: plain_def)
    have "norm_comps False (c # xs) (replicate k ''..'' @ st)
        = norm_comps False xs ((replicate k ''..'' @ st) @ [c])"
      by (rule norm_push) (use push in auto)
    moreover have "norm_comps True (c # xs) st = norm_comps True xs (st @ [c])"
      by (rule norm_push) (use push in auto)
    ultimately show ?thesis using Cons.IH [OF p, of k] by simp
  next
    case pop
    with Cons.prems have l: "last st \<noteq> ''..''" by (simp add: plain_last)
    from pop l have "norm_comps False (c # xs) (replicate k ''..'' @ st)
        = norm_comps False xs (replicate k ''..'' @ butlast st)"
      using norm_pop [of "replicate k ''..'' @ st" False xs] by (simp add: butlast_append)
    moreover from pop l have "norm_comps True (c # xs) st = norm_comps True xs (butlast st)"
      using norm_pop [of st True xs] by simp
    ultimately show ?thesis using Cons.IH [OF plain_butlast [OF Cons.prems], of k] by simp
  next
    case drop
    have "norm_comps False (''..'' # xs) (replicate k ''..'') = norm_comps False xs (replicate k ''..'' @ [''..''])"
      by (rule norm_push) (auto simp: last_replicate)
    also have "replicate k ''..'' @ [''..''] = replicate (Suc k) ''..'' @ []"
      by (simp add: replicate_append_same)
    finally have "norm_comps False (c # xs) (replicate k ''..'' @ st)
        = norm_comps False xs (replicate (Suc k) ''..'' @ [])"
      using drop by simp
    moreover have "norm_comps True (c # xs) st = norm_comps True xs []"
      using drop norm_drop [of xs] by simp
    moreover have "plain []" by (simp add: plain_def)
    ultimately show ?thesis using Cons.IH [of "[]" "Suc k"] by simp
  qed
qed

lemma sepfree_split: "sepfree (split CHR ''/'' s)"
  by (auto simp: sepfree_def dest: split_no_sep)

lemma sepfree_butlast: "sepfree xs \<Longrightarrow> sepfree (butlast xs)"
  by (auto simp: sepfree_def dest: in_set_butlastD)

lemma norm_sepfree: "sepfree new \<Longrightarrow> sepfree xs \<Longrightarrow> sepfree (norm_comps ini xs new)"
proof (induction xs arbitrary: new)
  case Nil
  then show ?case by simp
next
  case (Cons c xs)
  from Cons.prems have c: "sepfree (new @ [c])" and xs: "sepfree xs"
    by (auto simp: sepfree_def)
  from Cons.IH [OF Cons.prems(1) xs] Cons.IH [OF c xs]
    Cons.IH [OF sepfree_butlast [OF Cons.prems(1)] xs]
  show ?case by (simp only: norm_comps.simps split: if_splits) blast
qed

lemma solid_plain: "plain xs \<Longrightarrow> sepfree xs \<Longrightarrow> solid xs"
  by (auto simp: solid_def plain_def sepfree_def)

lemma solid_dots: "solid xs \<Longrightarrow> solid (replicate k ''..'' @ xs)"
  by (auto simp: solid_def)

lemma sep_join_solid_head:
  "solid xs \<Longrightarrow> \<not> startswith (sep_join xs) ''/'' \<and> (sep_join xs = [] \<longleftrightarrow> xs = [])"
proof (cases xs rule: sep_join.cases)
  case 1
  then show ?thesis by simp
next
  case (2 x)
  assume "solid xs"
  with 2 show ?thesis by (cases x) (auto simp: solid_def)
next
  case (3 x y zs)
  assume "solid xs"
  with 3 show ?thesis by (cases x) (auto simp: solid_def)
qed

lemma split_sep_join_solid: "solid xs \<Longrightarrow> xs \<noteq> [] \<Longrightarrow> split CHR ''/'' (sep_join xs) = xs"
  by (rule split_sep_join) (auto simp: solid_def)

text \<open>The normal form of an absolute path and of a relative one.\<close>

lemma initial_slashes_abs:
  "startswith path ''/'' \<Longrightarrow> initial_slashes path = 1 \<or> initial_slashes path = 2"
  by (simp add: initial_slashes_def)

lemma normpath_abs:
  assumes "startswith path ''/''"
  shows "normpath path
     = replicate (initial_slashes path) CHR ''/'' @ sep_join (norm_comps True (split CHR ''/'' path) [])"
proof -
  from assms have "path \<noteq> []" by auto
  moreover from initial_slashes_abs [OF assms]
  have "replicate (initial_slashes path) CHR ''/'' \<noteq> []" "initial_slashes path \<noteq> 0"
    by auto
  ultimately show ?thesis
    by (simp add: normpath_def Let_def)
qed

lemma normpath_rel:
  assumes "\<not> startswith path ''/''" and "path \<noteq> []"
  shows "normpath path
     = (if norm_comps False (split CHR ''/'' path) [] = [] then ''.''
        else sep_join (norm_comps False (split CHR ''/'' path) []))"
proof -
  from assms(1) have n: "initial_slashes path = 0"
    by (simp add: initial_slashes_def)
  have "solid (norm_comps False (split CHR ''/'' path) [])"
  proof -
    obtain k where "norm_comps False (split CHR ''/'' path) (replicate 0 ''..'' @ [])
        = replicate k ''..'' @ norm_comps True (split CHR ''/'' path) []"
      using norm_rel_abs [of "[]" "split CHR ''/'' path" 0] by (auto simp: plain_def)
    moreover have "solid (norm_comps True (split CHR ''/'' path) [])"
      by (intro solid_plain norm_abs_plain norm_sepfree sepfree_split) (simp_all add: plain_def sepfree_def)
    ultimately show ?thesis by (simp add: solid_dots)
  qed
  from sep_join_solid_head [OF this] assms(2) n show ?thesis
    by (simp add: normpath_def Let_def)
qed

lemma split_slash_Cons: "split CHR ''/'' (CHR ''/'' # s) = [] # split CHR ''/'' s"
  by simp

lemma abs_comps:
  "plain (norm_comps True (split CHR ''/'' path) []) \<and> solid (norm_comps True (split CHR ''/'' path) [])"
proof -
  have p: "plain (norm_comps True (split CHR ''/'' path) [])"
    by (rule norm_abs_plain) (simp add: plain_def)
  moreover have "sepfree (norm_comps True (split CHR ''/'' path) [])"
    by (intro norm_sepfree sepfree_split) (simp add: sepfree_def)
  ultimately show ?thesis by (simp add: solid_plain)
qed

text \<open>Normalizing a path of the form that \<open>normpath\<close> gives to absolute paths.\<close>

lemma normpath_normal_form:
  assumes "plain cs" and "solid cs" and "n = 1 \<or> n = 2"
  shows "normpath (replicate n CHR ''/'' @ sep_join cs) = replicate n CHR ''/'' @ sep_join cs"
proof -
  let ?r = "replicate n CHR ''/'' @ sep_join cs"
  from sep_join_solid_head [OF assms(2)]
  have head: "\<not> startswith (sep_join cs) ''/''" "sep_join cs = [] \<longleftrightarrow> cs = []"
    by simp_all
  from assms(3) have abs: "startswith ?r ''/''"
    by (auto simp: numeral_2_eq_2)
  from assms(3) head(1) have n: "initial_slashes ?r = n"
    by (cases "sep_join cs") (auto simp: initial_slashes_def numeral_2_eq_2)
  from assms(3) have sp: "split CHR ''/'' ?r = replicate n [] @ split CHR ''/'' (sep_join cs)"
    by (auto simp: numeral_2_eq_2)
  have "norm_comps True (split CHR ''/'' (sep_join cs)) [] = cs"
  proof (cases "cs = []")
    case True
    then show ?thesis by simp
  next
    case False
    with assms(2) have "split CHR ''/'' (sep_join cs) = cs"
      by (simp add: split_sep_join_solid)
    with assms(1) show ?thesis
      by (simp add: norm_plain_id)
  qed
  with sp have "norm_comps True (split CHR ''/'' ?r) [] = cs"
    by (simp only: norm_skip_empty)
  with normpath_abs [OF abs] n show ?thesis
    by simp
qed

lemma normpath_idem_abs:
  assumes "startswith path ''/''"
  shows "normpath (normpath path) = normpath path"
  using normpath_normal_form [of "norm_comps True (split CHR ''/'' path) []" "initial_slashes path"]
    abs_comps [of path] initial_slashes_abs [OF assms] normpath_abs [OF assms]
  by simp

lemma normpath_abs_is_abs: "startswith path ''/'' \<Longrightarrow> startswith (normpath path) ''/''"
  using initial_slashes_abs [of path] by (auto simp: normpath_abs numeral_2_eq_2)

lemma join_root: "join ''/'' p = (if startswith p ''/'' then p else CHR ''/'' # p)"
  by (simp add: join_def endswith_def)

lemma resolve_is_abs: "startswith (resolve p) ''/''"
  by (auto simp: resolve_def join_root intro: normpath_abs_is_abs)

lemma resolve_rel:
  assumes "\<not> startswith c ''/''"
  shows "resolve c = CHR ''/'' # sep_join (norm_comps True (split CHR ''/'' c) [])"
proof -
  from assms have "initial_slashes (CHR ''/'' # c) = 1"
    by (cases c) (auto simp: initial_slashes_def)
  with normpath_abs [of "CHR ''/'' # c"] assms show ?thesis
    by (simp add: resolve_def join_root norm_skip_Nil del: norm_comps.simps)
qed

lemma resolve_normpath: "resolve (normpath c) = resolve c"
proof (cases "startswith c ''/''")
  case True
  then have "resolve c = normpath c"
    by (simp add: resolve_def join_root)
  moreover from True have "resolve (normpath c) = normpath (normpath c)"
    by (simp add: resolve_def join_root normpath_abs_is_abs)
  ultimately show ?thesis using True by (simp add: normpath_idem_abs)
next
  case False
  let ?A = "norm_comps True (split CHR ''/'' c) []"
  let ?R = "norm_comps False (split CHR ''/'' c) []"
  from abs_comps [of c] have A: "plain ?A" "solid ?A" by simp_all
  obtain k where R: "?R = replicate k ''..'' @ ?A"
    using norm_rel_abs [of "[]" "split CHR ''/'' c" 0] by (auto simp: plain_def)
  have R_solid: "solid ?R"
    using A(2) by (simp add: R solid_dots)
  show ?thesis
  proof (cases "c = []")
    case True
    have "resolve (normpath []) = resolve []" by code_simp
    with True show ?thesis by simp
  next
    case nonempty: False
    show ?thesis
    proof (cases "?R = []")
      case True
      with R have "?A = []" by simp
      moreover from True False nonempty have "normpath c = ''.''"
        by (simp add: normpath_rel)
      moreover have "resolve ''.'' = ''/''" by code_simp
      ultimately show ?thesis using False by (simp add: resolve_rel)
    next
      case nonnil: False
      with False nonempty have np: "normpath c = sep_join ?R"
        by (simp add: normpath_rel)
      from sep_join_solid_head [OF R_solid] have rel: "\<not> startswith (sep_join ?R) ''/''"
        by simp
      have "split CHR ''/'' (sep_join ?R) = ?R"
        using R_solid nonnil by (rule split_sep_join_solid)
      then have "norm_comps True (split CHR ''/'' (sep_join ?R)) [] = norm_comps True ?A []"
        by (simp add: R [symmetric]) (simp add: R norm_abs_dots)
      also have "\<dots> = ?A"
        using A(1) by (simp add: norm_plain_id)
      finally show ?thesis
        using rel False by (simp add: np resolve_rel)
    qed
  qed
qed

lemma resolve_idem: "resolve (resolve p) = resolve p"
proof -
  have abs: "startswith (join ''/'' p) ''/''"
    by (simp add: join_root)
  from resolve_is_abs [of p] have "resolve (resolve p) = normpath (resolve p)"
    by (simp add: resolve_def join_root)
  also have "\<dots> = resolve p"
    unfolding resolve_def using abs by (rule normpath_idem_abs)
  finally show ?thesis .
qed

lemma startswith_slash: "startswith s ''/'' \<longleftrightarrow> (\<exists>t. s = CHR ''/'' # t)"
  by (cases s) auto

lemma lstrip_slash_not_abs: "\<not> isabs (lstrip_slash s)"
  by (induction s) (auto simp: lstrip_slash_def isabs_def)

lemma join_absolute_left: "isabs b \<Longrightarrow> \<not> isabs x \<Longrightarrow> isabs (join b x)"
  by (auto simp: join_def isabs_def startswith_slash)

lemma resolve_absolute: "isabs c \<Longrightarrow> resolve c = normpath c"
  by (simp add: resolve_def join_def isabs_def)

text \<open>Splitting and joining a boundary and a path that has no \<open>..\<close> component.\<close>

lemma split_append_sep: "split d (x @ d # s) = split d x @ split d s"
proof (induction x)
  case Nil
  then show ?case by simp
next
  case (Cons c x)
  then show ?case
    by (cases "split d x") (auto simp: split_not_Nil)
qed

lemma norm_no_dotdot:
  "''..'' \<notin> set xs \<Longrightarrow>
   norm_comps ini xs new = new @ filter (\<lambda>c. c \<noteq> [] \<and> c \<noteq> ''.'') xs"
proof (induction xs arbitrary: new)
  case Nil
  then show ?case by simp
next
  case (Cons c xs)
  then have nd: "c \<noteq> ''..''" and rest: "''..'' \<notin> set xs"
    by auto
  show ?case
  proof (cases "c = [] \<or> c = ''.''")
    case True
    then have "norm_comps ini (c # xs) new = norm_comps ini xs new"
      by (rule norm_skip)
    with True Cons.IH [OF rest] show ?thesis by auto
  next
    case False
    have "norm_comps ini (c # xs) new = norm_comps ini xs (new @ [c])"
      by (rule norm_push) (use False nd in auto)
    with False Cons.IH [OF rest] show ?thesis by auto
  qed
qed

lemma split_lstrip_subset:
  "set (split CHR ''/'' (lstrip_slash p)) \<subseteq> set (split CHR ''/'' p)"
  by (induction p) (auto simp: lstrip_slash_def)

lemma all_slashes_no_comps:
  "set b \<subseteq> {CHR ''/''} \<Longrightarrow> norm_comps ini (split CHR ''/'' b) new = new"
  by (induction b) (simp_all add: norm_skip_Nil del: norm_comps.simps(2))

lemma initial_slashes_append:
  assumes "\<not> set b \<subseteq> {CHR ''/''}"
  shows "initial_slashes (b @ t) = initial_slashes b"
proof (cases b)
  case Nil
  with assms show ?thesis by simp
next
  case b1: (Cons c1 r1)
  show ?thesis
  proof (cases "c1 = CHR ''/''")
    case False
    with b1 show ?thesis by (simp add: initial_slashes_def)
  next
    case s1: True
    show ?thesis
    proof (cases r1)
      case Nil
      with b1 s1 assms show ?thesis by simp
    next
      case b2: (Cons c2 r2)
      show ?thesis
      proof (cases "c2 = CHR ''/''")
        case False
        with b1 b2 s1 show ?thesis by (simp add: initial_slashes_def)
      next
        case s2: True
        show ?thesis
        proof (cases r2)
          case Nil
          with b1 b2 s1 s2 assms show ?thesis by simp
        next
          case (Cons c3 r3)
          with b1 b2 s1 s2 show ?thesis by (simp add: initial_slashes_def)
        qed
      qed
    qed
  qed
qed

lemma sep_join_append:
  "xs \<noteq> [] \<Longrightarrow> ys \<noteq> [] \<Longrightarrow> sep_join (xs @ ys) = sep_join xs @ CHR ''/'' # sep_join ys"
proof (induction xs rule: sep_join.induct)
  case 1
  then show ?case by simp
next
  case (2 x)
  then show ?case by (cases ys) simp_all
next
  case (3 x y zs)
  then show ?case by simp
qed

lemma startswith_append: "startswith (a @ t) a"
  by (induction a) simp_all


lemma endswith_slash: "endswith b ''/'' \<longleftrightarrow> (\<exists>x. b = x @ ''/'')"
proof
  assume "endswith b ''/''"
  then obtain t where "rev b = CHR ''/'' # t"
    by (auto simp: endswith_def startswith_slash)
  then have "b = rev t @ ''/''"
    by (metis rev_rev_ident rev.simps(2))
  then show "\<exists>x. b = x @ ''/''" ..
next
  assume "\<exists>x. b = x @ ''/''"
  then show "endswith b ''/''"
    by (auto simp: endswith_def)
qed

lemma join_boundary_form:
  assumes "isabs b" and "\<not> isabs s"
  shows "\<exists>x. join b s = x @ CHR ''/'' # s
            \<and> norm_comps True (split CHR ''/'' x) [] = norm_comps True (split CHR ''/'' b) []
            \<and> (b @ CHR ''/'' # s = x @ CHR ''/'' # s \<or> b @ s = x @ CHR ''/'' # s)"
proof (cases "endswith b ''/''")
  case True
  then obtain x where x: "b = x @ ''/''"
    by (auto simp: endswith_slash)
  have "split CHR ''/'' b = split CHR ''/'' x @ [[]]"
    using split_append_sep [of "CHR ''/''" x "[]"] by (simp add: x)
  then have "norm_comps True (split CHR ''/'' b) [] = norm_comps True (split CHR ''/'' x) []"
    by (simp add: norm_comps_append norm_skip_Nil del: norm_comps.simps(2))
  moreover from True assms(2) have "join b s = x @ CHR ''/'' # s"
    by (simp add: join_def isabs_def x)
  ultimately show ?thesis
    by (auto simp: x)
next
  case False
  with assms have "join b s = b @ CHR ''/'' # s"
    by (auto simp: join_def isabs_def)
  then show ?thesis by auto
qed

lemma joined_stays_inside:
  assumes b: "isabs b" and s: "\<not> isabs s"
    and nodd: "''..'' \<notin> set (split CHR ''/'' s)"
    and comps: "norm_comps True (split CHR ''/'' b) [] \<noteq> []"
  shows "contained (resolve (join b s)) (resolve b)"
proof -
  let ?Bc = "norm_comps True (split CHR ''/'' b) []"
  let ?sc = "filter (\<lambda>c. c \<noteq> [] \<and> c \<noteq> ''.'') (split CHR ''/'' s)"
  let ?n = "initial_slashes b"
  from join_boundary_form [OF b s] obtain x where
    j: "join b s = x @ CHR ''/'' # s"
    and xc: "norm_comps True (split CHR ''/'' x) [] = ?Bc"
    and form: "b @ CHR ''/'' # s = x @ CHR ''/'' # s \<or> b @ s = x @ CHR ''/'' # s"
    by blast
  from comps have ns: "\<not> set b \<subseteq> {CHR ''/''}"
    using all_slashes_no_comps [of b True "[]"] by auto
  from form have "join b s = b @ CHR ''/'' # s \<or> join b s = b @ s"
    by (auto simp: j)
  then have n: "initial_slashes (join b s) = ?n"
    using initial_slashes_append [OF ns, of "CHR ''/'' # s"] initial_slashes_append [OF ns, of s]
    by presburger
  have "norm_comps True (split CHR ''/'' (join b s)) [] = norm_comps True (split CHR ''/'' s) ?Bc"
    by (simp add: j split_append_sep norm_comps_append xc del: norm_comps.simps(2))
  also have "\<dots> = ?Bc @ ?sc"
    using nodd by (rule norm_no_dotdot)
  finally have nc: "norm_comps True (split CHR ''/'' (join b s)) [] = ?Bc @ ?sc" .
  from b have absb: "startswith b ''/''"
    by (simp add: isabs_def)
  from join_absolute_left [OF b s] have absj: "startswith (join b s) ''/''"
    by (simp add: isabs_def)
  have rb: "resolve b = replicate ?n CHR ''/'' @ sep_join ?Bc"
    using b normpath_abs [OF absb] by (simp add: resolve_absolute)
  have rj: "resolve (join b s) = replicate ?n CHR ''/'' @ sep_join (?Bc @ ?sc)"
    using join_absolute_left [OF b s] normpath_abs [OF absj] by (simp add: resolve_absolute n nc)
  show ?thesis
  proof (cases "?sc = []")
    case True
    with rb rj show ?thesis by (simp add: contained_def)
  next
    case False
    with comps have "sep_join (?Bc @ ?sc) = sep_join ?Bc @ CHR ''/'' # sep_join ?sc"
      by (rule sep_join_append)
    with rj have "resolve (join b s) = (resolve b @ ''/'') @ sep_join ?sc"
      by (simp add: rb)
    then show ?thesis
      using startswith_append [of "resolve b @ ''/''"] by (simp add: contained_def)
  qed
qed

lemma root_boundary:
  assumes "isabs b" and "norm_comps True (split CHR ''/'' b) [] = []"
  shows "resolve b = ''/'' \<or> resolve b = ''//''"
proof -
  from assms(1) have absb: "startswith b ''/''"
    by (simp add: isabs_def)
  from initial_slashes_abs [OF absb] normpath_abs [OF absb] assms show ?thesis
    by (auto simp: resolve_absolute numeral_2_eq_2)
qed

lemma validate_stripped:
  assumes "isabs p" and "\<not> contained (resolve p) (resolve b)"
  shows "validate_within_boundary p b =
           (case validate_within_boundary (lstrip_slash p) b of
              Inl e \<Rightarrow> Inl (PathEscapeError p)
            | Inr r \<Rightarrow> Inr r)"
  using assms by (simp add: validate_within_boundary_def Let_def lstrip_slash_not_abs)

text \<open>
  With an absolute boundary the joined path is absolute, the path checked and the path
  returned are the same, and the validator raises or returns the normalized boundary or a
  path under it.
\<close>

lemma validate_within_absolute_boundary:
  assumes "isabs boundary"
  shows "validate_within_boundary p boundary = Inl (PathEscapeError p)
   \<or> (\<exists>r. validate_within_boundary p boundary = Inr r
          \<and> (r = resolve boundary \<or> startswith r (resolve boundary @ ''/'')))"
proof -
  define np where "np = (if isabs p then lstrip_slash p else p)"
  define combined where "combined = join boundary np"
  have rel: "\<not> isabs np"
    by (simp add: np_def lstrip_slash_not_abs)
  have same: "normpath combined = resolve combined"
    using join_absolute_left [OF assms rel] by (simp add: combined_def resolve_absolute)
  define inside where "inside \<longleftrightarrow> isabs p \<and> contained (resolve p) (resolve boundary)"
  have v: "validate_within_boundary p boundary =
      (if inside then Inr (resolve p)
       else if \<not> contained (resolve combined) (resolve boundary) then Inl (PathEscapeError p)
       else Inr (normpath combined))"
    by (simp add: validate_within_boundary_def Let_def np_def combined_def inside_def)
  show ?thesis
  proof (cases inside)
    case True
    then have "contained (resolve p) (resolve boundary)"
      by (simp add: inside_def)
    with True v show ?thesis
      by (auto simp: contained_def)
  next
    case False
    with v same show ?thesis
      by (auto simp: contained_def)
  qed
qed

text \<open>
  C1. The claim fails on the code, and the code is at fault: by the validator's own
  contract a path that escapes the boundary raises \<open>PathEscapeError\<close>. The
  containment check is made on the joined path resolved against the root directory, where
  \<open>..\<close> stops at \<open>/\<close>; the path returned is the joined path normalized as it is.
  With the relative boundary \<open>a\<close> (the scoped backends pass their scope path as the
  boundary) the path \<open>../../a/x\<close> passes the check and comes back as \<open>../a/x\<close>,
  which is neither the boundary nor under it, however the boundary is normalized. The
  local backend rooted at \<open>/srv/a\<close> resolves the scope \<open>a\<close> to \<open>/srv/a/a\<close> and the
  returned path to \<open>/srv/a/x\<close>, outside the scope. One step up, \<open>../x\<close>, is refused.
\<close>

theorem validate_within_boundary_returns_escaping_path:
  "validate_within_boundary ''../../a/x'' ''a'' = Inr ''../a/x''
   \<and> ''../a/x'' \<noteq> normpath ''a'' \<and> \<not> startswith ''../a/x'' (normpath ''a'' @ ''/'')
   \<and> ''../a/x'' \<noteq> resolve ''a'' \<and> \<not> startswith ''../a/x'' (resolve ''a'' @ ''/'')
   \<and> resolve_path ''/'' ''/srv/a'' ''a'' = Inr ''/srv/a/a''
   \<and> resolve_path ''/'' ''/srv/a'' ''../a/x'' = Inr ''/srv/a/x''
   \<and> \<not> contained ''/srv/a/x'' ''/srv/a/a''
   \<and> validate_within_boundary ''../x'' ''a'' = Inl (PathEscapeError ''../x'')"
  by code_simp

text \<open>
  C3 (as amended). Let \<open>p\<close> be absolute. If \<open>p\<close> normalized is the normalized
  boundary or lies under it, the validator returns \<open>p\<close> normalized, which is \<open>p\<close>
  itself exactly when \<open>p\<close> is already in normal form. Otherwise the outcome is that of
  validating \<open>p\<close> without its leading separators against the boundary, except that
  an error carries \<open>p\<close>; this can be a rejection. It is no rejection when the boundary is
  absolute and not the root and \<open>p\<close> has no \<open>..\<close> component: then the result is the
  stripped path joined to the boundary and normalized, and it lies within the boundary.
  The two examples of the specification hold.
\<close>

theorem validate_absolute_path:
  assumes "isabs p"
  shows "(contained (resolve p) (resolve b) \<longrightarrow>
            validate_within_boundary p b = Inr (normpath p)
            \<and> (validate_within_boundary p b = Inr p \<longleftrightarrow> normpath p = p))
       \<and> (\<not> contained (resolve p) (resolve b) \<longrightarrow>
            validate_within_boundary p b =
              (case validate_within_boundary (lstrip_slash p) b of
                 Inl e \<Rightarrow> Inl (PathEscapeError p)
               | Inr r \<Rightarrow> Inr r))
       \<and> (\<not> contained (resolve p) (resolve b) \<and> isabs b \<and> resolve b \<noteq> ''/'' \<and> resolve b \<noteq> ''//''
            \<and> ''..'' \<notin> set (split CHR ''/'' p) \<longrightarrow>
            validate_within_boundary p b = Inr (normpath (join b (lstrip_slash p)))
            \<and> contained (normpath (join b (lstrip_slash p))) (resolve b))
       \<and> validate_within_boundary ''/etc/passwd'' ''/workspace'' = Inr ''/workspace/etc/passwd''
       \<and> validate_within_boundary ''/workspace/a/b'' ''/workspace'' = Inr ''/workspace/a/b''"
proof -
  have ex1: "validate_within_boundary ''/etc/passwd'' ''/workspace'' = Inr ''/workspace/etc/passwd''"
    by code_simp
  have ex2: "validate_within_boundary ''/workspace/a/b'' ''/workspace'' = Inr ''/workspace/a/b''"
    by code_simp
  have inside: "contained (resolve p) (resolve b) \<longrightarrow>
            validate_within_boundary p b = Inr (normpath p)
            \<and> (validate_within_boundary p b = Inr p \<longleftrightarrow> normpath p = p)"
    using assms by (auto simp: validate_within_boundary_def Let_def resolve_absolute)
  have outside: "\<not> contained (resolve p) (resolve b) \<longrightarrow>
            validate_within_boundary p b =
              (case validate_within_boundary (lstrip_slash p) b of
                 Inl e \<Rightarrow> Inl (PathEscapeError p)
               | Inr r \<Rightarrow> Inr r)"
    using assms by (simp add: validate_stripped)
  have accepted: "validate_within_boundary p b = Inr (normpath (join b (lstrip_slash p)))
            \<and> contained (normpath (join b (lstrip_slash p))) (resolve b)"
    if out: "\<not> contained (resolve p) (resolve b)" and b: "isabs b"
      and notroot: "resolve b \<noteq> ''/''" "resolve b \<noteq> ''//''"
      and nodd: "''..'' \<notin> set (split CHR ''/'' p)"
  proof -
    let ?s = "lstrip_slash p"
    have s: "\<not> isabs ?s" by (rule lstrip_slash_not_abs)
    from nodd split_lstrip_subset [of p] have nodd': "''..'' \<notin> set (split CHR ''/'' ?s)"
      by blast
    from root_boundary [OF b] notroot have comps: "norm_comps True (split CHR ''/'' b) [] \<noteq> []"
      by blast
    from joined_stays_inside [OF b s nodd' comps]
    have "contained (resolve (join b ?s)) (resolve b)" .
    moreover from join_absolute_left [OF b s] have "resolve (join b ?s) = normpath (join b ?s)"
      by (rule resolve_absolute)
    ultimately show ?thesis
      using assms out by (simp add: validate_within_boundary_def Let_def)
  qed
  from inside outside accepted ex1 ex2 show ?thesis by blast
qed

theorem validate_absolute_path_witness:
  "isabs ''/workspace/a/b'' \<and> contained (resolve ''/workspace/a/b'') (resolve ''/workspace'')
   \<and> normpath ''/workspace/a/b'' = ''/workspace/a/b''
   \<and> validate_within_boundary ''/workspace/a/b'' ''/workspace'' = Inr ''/workspace/a/b''
   \<and> isabs ''/var/log/./app.log''
   \<and> \<not> contained (resolve ''/var/log/./app.log'') (resolve ''/workspace'')
   \<and> isabs ''/workspace'' \<and> resolve ''/workspace'' \<noteq> ''/'' \<and> resolve ''/workspace'' \<noteq> ''//''
   \<and> ''..'' \<notin> set (split CHR ''/'' ''/var/log/./app.log'')
   \<and> validate_within_boundary ''/var/log/./app.log'' ''/workspace'' = Inr ''/workspace/var/log/app.log''
   \<and> contained ''/workspace/var/log/app.log'' (resolve ''/workspace'')
   \<and> isabs ''/../etc'' \<and> \<not> contained (resolve ''/../etc'') (resolve ''/workspace'')
   \<and> validate_within_boundary (lstrip_slash ''/../etc'') ''/workspace'' = Inl (PathEscapeError ''../etc'')
   \<and> validate_within_boundary ''/../etc'' ''/workspace'' = Inl (PathEscapeError ''/../etc'')"
proof -
  have a1: "isabs ''/workspace/a/b''" by code_simp
  have c1: "contained (resolve ''/workspace/a/b'') (resolve ''/workspace'')" by code_simp
  have n1: "normpath ''/workspace/a/b'' = ''/workspace/a/b''" by code_simp
  have a2: "isabs ''/var/log/./app.log''" by code_simp
  have c2: "\<not> contained (resolve ''/var/log/./app.log'') (resolve ''/workspace'')" by code_simp
  have b2: "isabs ''/workspace''" by code_simp
  have r2: "resolve ''/workspace'' \<noteq> ''/''" "resolve ''/workspace'' \<noteq> ''//''" by code_simp+
  have d2: "''..'' \<notin> set (split CHR ''/'' ''/var/log/./app.log'')" by code_simp
  have j2: "normpath (join ''/workspace'' (lstrip_slash ''/var/log/./app.log''))
            = ''/workspace/var/log/app.log''"
    by code_simp
  have a3: "isabs ''/../etc''" by code_simp
  have c3: "\<not> contained (resolve ''/../etc'') (resolve ''/workspace'')" by code_simp
  have s3: "validate_within_boundary (lstrip_slash ''/../etc'') ''/workspace''
            = Inl (PathEscapeError ''../etc'')"
    by code_simp
  from validate_absolute_path [OF a1, of "''/workspace''"] c1 n1
  have v1: "validate_within_boundary ''/workspace/a/b'' ''/workspace'' = Inr ''/workspace/a/b''"
    by simp
  from validate_absolute_path [OF a2, of "''/workspace''"] c2 b2 r2 d2
  have v2: "validate_within_boundary ''/var/log/./app.log'' ''/workspace''
              = Inr (normpath (join ''/workspace'' (lstrip_slash ''/var/log/./app.log'')))
            \<and> contained (normpath (join ''/workspace'' (lstrip_slash ''/var/log/./app.log'')))
                 (resolve ''/workspace'')"
    by blast
  from validate_absolute_path [OF a3, of "''/workspace''"] c3
  have "validate_within_boundary ''/../etc'' ''/workspace'' =
          (case validate_within_boundary (lstrip_slash ''/../etc'') ''/workspace'' of
             Inl e \<Rightarrow> Inl (PathEscapeError ''/../etc'')
           | Inr r \<Rightarrow> Inr r)"
    by blast
  then have v3: "validate_within_boundary ''/../etc'' ''/workspace'' = Inl (PathEscapeError ''/../etc'')"
    by (simp add: s3)
  from a1 c1 n1 v1 a2 c2 b2 r2 d2 v2 a3 c3 s3 v3 show ?thesis
    by (simp only: j2 simp_thms)
qed

text \<open>
  C3 as stated fails twice. An absolute path outside the boundary can be rejected:
  \<open>/../etc\<close> under \<open>/workspace\<close> is, and under the boundary \<open>/\<close> so is \<open>/etc\<close>.
  An absolute path inside the boundary can come back changed: \<open>/workspace/a/../b\<close>
  comes back as \<open>/workspace/b\<close>.
\<close>

theorem absolute_path_rejected_counterexample:
  "isabs ''/../etc''
   \<and> validate_within_boundary ''/../etc'' ''/workspace'' = Inl (PathEscapeError ''/../etc'')
   \<and> isabs ''/etc''
   \<and> validate_within_boundary ''/etc'' ''/'' = Inl (PathEscapeError ''/etc'')
   \<and> isabs ''/workspace/a/../b''
   \<and> normpath ''/workspace/a/../b'' = ''/workspace/b''
   \<and> startswith ''/workspace/b'' (normpath ''/workspace'' @ ''/'')
   \<and> validate_within_boundary ''/workspace/a/../b'' ''/workspace'' = Inr ''/workspace/b''
   \<and> ''/workspace/b'' \<noteq> ''/workspace/a/../b''"
  by code_simp

section \<open>Backends: results\<close>

lemma map_of_dict_set: "map_of (dict_set k v d) = (map_of d)(k \<mapsto> v)"
  by (induction d) (auto simp: fun_eq_iff)

lemma dict_get_dict_set: "dict_get (dict_set k v d) k = Some v"
  by (simp add: dict_get_def map_of_dict_set)

lemma memory_read_rejected:
  "fst (memory_read cd mb key options) = Inl e \<Longrightarrow> snd (memory_read cd mb key options) = mb"
  by (auto simp: memory_read_def split: option.splits content.splits if_splits)

lemma memory_rename_rejected:
  "fst (memory_rename mb old_key new_key) = Inl e \<Longrightarrow> snd (memory_rename mb old_key new_key) = mb"
proof (cases "dict_get (store mb) old_key")
  case None
  then show ?thesis by (simp add: memory_rename_def)
next
  case (Some v)
  have "dict_has (dict_set new_key v (store mb)) old_key"
    using Some by (simp add: dict_has_def dict_get_def map_of_dict_set)
  then have "memory_rename mb old_key new_key
      = (Inr (), mb\<lparr>store := filter (\<lambda>kv. fst kv \<noteq> old_key) (dict_set new_key v (store mb))\<rparr>)"
    using Some by (simp add: memory_rename_def dict_del_def)
  moreover assume "fst (memory_rename mb old_key new_key) = Inl e"
  ultimately show ?thesis by simp
qed

lemma delete_keys_error: "delete_keys ks d = (Some e, d') \<Longrightarrow> \<exists>k. e = KeyError k"
  by (induction ks arbitrary: d) (auto simp: dict_del_def split: if_splits)

lemma memory_rm_rejected:
  assumes "fst (memory_rm mb key recursive force) = Inl (BackendError msg KEY_NOT_FOUND operation)"
  shows "snd (memory_rm mb key recursive force) = mb"
proof (cases recursive)
  case False
  with assms show ?thesis
    by (auto simp: memory_rm_def dict_del_def split: if_splits)
next
  case True
  define ks where "ks = (if dict_has (store mb) key then [key] else [])
      @ filter (\<lambda>k. startswith k (if endswith key ''/'' then key else key @ ''/'')) (map fst (store mb))"
  obtain r d where dk: "delete_keys ks (store mb) = (r, d)"
    by (cases "delete_keys ks (store mb)")
  have unfold: "memory_rm mb key recursive force =
      (case delete_keys ks (store mb) of
         (Some e, d) \<Rightarrow> (Inl e, mb\<lparr>store := d\<rparr>)
       | (None, d) \<Rightarrow>
           if \<not> force \<and> ks = [] then (Inl (key_not_found key ''rm''), mb\<lparr>store := d\<rparr>)
           else (Inr (), mb\<lparr>store := d\<rparr>))"
    unfolding ks_def memory_rm_def Let_def by (simp only: True if_True)
  show ?thesis
  proof (cases r)
    case (Some e)
    with dk obtain k where "e = KeyError k"
      using delete_keys_error by blast
    with assms unfold dk Some show ?thesis by simp
  next
    case None
    show ?thesis
    proof (cases "\<not> force \<and> ks = []")
      case True
      with dk have "d = store mb" by simp
      with unfold dk None True show ?thesis by simp
    next
      case False
      with assms unfold dk None show ?thesis by auto
    qed
  qed
qed

lemma memory_stat_rejected:
  "fst (memory_stat cd now mb key) = Inl e \<Longrightarrow> snd (memory_stat cd now mb key) = mb"
  by (auto simp: memory_stat_def split: option.splits)

text \<open>
  C2 (as amended). In the local filesystem backend every operation that takes a path
  validates it against the root of the backend before any call to the operating system:
  when the validation fails the operation raises the \<open>PathEscapeError\<close> and the
  filesystem is as before, whatever the operating system would do (for \<open>rename\<close>,
  whichever of the two paths fails). The memory backend does not validate its keys; the
  operations that it rejects with \<open>KEY_NOT_FOUND\<close> leave the store as it was.
\<close>

theorem rejected_operation_leaves_state:
  "(validate_within_boundary p rootd = Inl e \<longrightarrow>
       local_read os cwd rootd fs p options = (Inl e, fs)
     \<and> local_write os cwd rootd fs p c = (Inl e, fs)
     \<and> local_rename os cwd rootd fs p q = (Inl e, fs)
     \<and> (\<exists>e'. local_rename os cwd rootd fs q p = (Inl e', fs))
     \<and> local_rm os cwd rootd fs p recursive force = (Inl e, fs)
     \<and> local_readdir os cwd rootd fs p = (Inl e, fs)
     \<and> local_mkdir os cwd rootd fs p recursive = (Inl e, fs)
     \<and> local_touch os cwd rootd fs p = (Inl e, fs)
     \<and> local_exists os cwd rootd fs p = (Inl e, fs)
     \<and> local_stat os cwd rootd fs p = (Inl e, fs))
   \<and> (fst (memory_read cd mb key options) = Inl (BackendError msg KEY_NOT_FOUND operation)
        \<longrightarrow> snd (memory_read cd mb key options) = mb)
   \<and> (fst (memory_rename mb key new_key) = Inl (BackendError msg KEY_NOT_FOUND operation)
        \<longrightarrow> snd (memory_rename mb key new_key) = mb)
   \<and> (fst (memory_rm mb key recursive force) = Inl (BackendError msg KEY_NOT_FOUND operation)
        \<longrightarrow> snd (memory_rm mb key recursive force) = mb)
   \<and> (fst (memory_stat cd now mb key) = Inl (BackendError msg KEY_NOT_FOUND operation)
        \<longrightarrow> snd (memory_stat cd now mb key) = mb)"
proof -
  have loc: "validate_within_boundary p rootd = Inl e \<longrightarrow>
       local_read os cwd rootd fs p options = (Inl e, fs)
     \<and> local_write os cwd rootd fs p c = (Inl e, fs)
     \<and> local_rename os cwd rootd fs p q = (Inl e, fs)
     \<and> local_rm os cwd rootd fs p recursive force = (Inl e, fs)
     \<and> local_readdir os cwd rootd fs p = (Inl e, fs)
     \<and> local_mkdir os cwd rootd fs p recursive = (Inl e, fs)
     \<and> local_touch os cwd rootd fs p = (Inl e, fs)
     \<and> local_exists os cwd rootd fs p = (Inl e, fs)
     \<and> local_stat os cwd rootd fs p = (Inl e, fs)"
    by (simp add: resolve_path_def local_read_def local_write_def local_rename_def local_rm_def
        local_readdir_def local_mkdir_def local_touch_def local_exists_def local_stat_def)
  have ren: "validate_within_boundary p rootd = Inl e \<longrightarrow>
      (\<exists>e'. local_rename os cwd rootd fs q p = (Inl e', fs))"
    by (cases "validate_within_boundary q rootd") (simp_all add: resolve_path_def local_rename_def)
  from loc ren memory_read_rejected memory_rename_rejected memory_rm_rejected memory_stat_rejected
  show ?thesis by blast
qed

theorem rejected_operation_leaves_state_witness:
  "validate_within_boundary ''../../etc/passwd'' ''/workspace'' = Inl (PathEscapeError ''../../etc/passwd'')
   \<and> local_write counting_os ''/'' ''/workspace'' 0 ''../../etc/passwd'' (Str ''x'')
       = (Inl (PathEscapeError ''../../etc/passwd''), 0)
   \<and> local_write counting_os ''/'' ''/workspace'' 0 ''notes.txt'' (Str ''x'') = (Inr (), 1)
   \<and> memory_rm \<lparr>root_dir = ''/'', store = [(''a'', Str ''x'')]\<rparr> ''b'' True False
       = (Inl (BackendError ''Key not found: b'' KEY_NOT_FOUND (Some ''rm'')),
          \<lparr>root_dir = ''/'', store = [(''a'', Str ''x'')]\<rparr>)
   \<and> memory_read \<lparr>utf8_encode = (\<lambda>t. []), utf8_decode = (\<lambda>b. None)\<rparr>
         \<lparr>root_dir = ''/'', store = [(''a'', Str ''x'')]\<rparr> ''b'' None
       = (Inl (BackendError ''Key not found: b'' KEY_NOT_FOUND (Some ''read'')),
          \<lparr>root_dir = ''/'', store = [(''a'', Str ''x'')]\<rparr>)
   \<and> memory_rename \<lparr>root_dir = ''/'', store = [(''a'', Str ''x'')]\<rparr> ''b'' ''c''
       = (Inl (BackendError ''Key not found: b'' KEY_NOT_FOUND (Some ''rename'')),
          \<lparr>root_dir = ''/'', store = [(''a'', Str ''x'')]\<rparr>)
   \<and> memory_stat \<lparr>utf8_encode = (\<lambda>t. []), utf8_decode = (\<lambda>b. None)\<rparr> 0
         \<lparr>root_dir = ''/'', store = [(''a'', Str ''x'')]\<rparr> ''b''
       = (Inl (BackendError ''Key not found: b'' KEY_NOT_FOUND (Some ''stat'')),
          \<lparr>root_dir = ''/'', store = [(''a'', Str ''x'')]\<rparr>)"
proof -
  let ?cd = "\<lparr>utf8_encode = (\<lambda>t. []), utf8_decode = (\<lambda>b. None)\<rparr>"
  let ?mb = "\<lparr>root_dir = ''/'', store = [(''a'', Str ''x'')]\<rparr>"
  have v: "validate_within_boundary ''../../etc/passwd'' ''/workspace''
      = Inl (PathEscapeError ''../../etc/passwd'')"
    by code_simp
  have ok: "local_write counting_os ''/'' ''/workspace'' 0 ''notes.txt'' (Str ''x'') = (Inr (), 1)"
    by code_simp
  have rm: "fst (memory_rm ?mb ''b'' True False)
       = Inl (BackendError ''Key not found: b'' KEY_NOT_FOUND (Some ''rm''))"
    by code_simp
  have rd: "fst (memory_read ?cd ?mb ''b'' None)
       = Inl (BackendError ''Key not found: b'' KEY_NOT_FOUND (Some ''read''))"
    by (simp add: memory_read_def dict_get_def key_not_found_def)
  have rn: "fst (memory_rename ?mb ''b'' ''c'')
       = Inl (BackendError ''Key not found: b'' KEY_NOT_FOUND (Some ''rename''))"
    by (simp add: memory_rename_def dict_get_def key_not_found_def)
  have st: "fst (memory_stat ?cd 0 ?mb ''b'')
       = Inl (BackendError ''Key not found: b'' KEY_NOT_FOUND (Some ''stat''))"
    by (simp add: memory_stat_def dict_get_def key_not_found_def)
  note inst = rejected_operation_leaves_state [where p = "''../../etc/passwd''"
      and rootd = "''/workspace''" and e = "PathEscapeError ''../../etc/passwd''"
      and os = counting_os and cwd = "''/''" and fs = 0 and c = "Str ''x''"
      and cd = ?cd and mb = ?mb and key = "''b''" and msg = "''Key not found: b''"
      and recursive = True and force = False and options = None and new_key = "''c''"
      and now = 0]
  from inst [where operation = "Some ''rm''"] inst [where operation = "Some ''read''"]
    inst [where operation = "Some ''rename''"] inst [where operation = "Some ''stat''"]
    v ok rm rd rn st
  show ?thesis
    by (simp add: prod_eq_iff)
qed

text \<open>
  C2 as stated fails for the memory backend: a key that the validator rejects for the
  root of the backend is written under that very key.
\<close>

theorem memory_backend_unvalidated_counterexample:
  "validate_within_boundary ''../../etc/passwd'' ''/workspace'' = Inl (PathEscapeError ''../../etc/passwd'')
   \<and> memory_write \<lparr>root_dir = ''/workspace'', store = []\<rparr> ''../../etc/passwd'' (Str ''x'')
       = (Inr (), \<lparr>root_dir = ''/workspace'', store = [(''../../etc/passwd'', Str ''x'')]\<rparr>)"
  by code_simp

text \<open>
  C10. On the memory backend, a read of a key just written gives back what was written:
  a string read with the default text encoding (no options, or the encoding
  \<^verbatim>\<open>utf8\<close>), bytes read with the encoding \<^verbatim>\<open>buffer\<close>. The read leaves the backend as
  the write left it.
\<close>

theorem memory_write_read_roundtrip:
  "memory_read cd (snd (memory_write mb k (Str v))) k None
     = (Inr (Str v), snd (memory_write mb k (Str v)))
   \<and> memory_read cd (snd (memory_write mb k (Str v))) k (Some Utf8)
     = (Inr (Str v), snd (memory_write mb k (Str v)))
   \<and> memory_read cd (snd (memory_write mb k (Bytes b))) k (Some Buffer)
     = (Inr (Bytes b), snd (memory_write mb k (Bytes b)))"
  by (simp add: memory_read_def memory_write_def dict_get_dict_set)

section \<open>Command safety classifier: results\<close>

lemma allowed_not_dangerous: "is_allowed command config \<Longrightarrow> \<not> is_dangerous command config"
  by (simp add: is_dangerous_def)

lemma rm_rf_root_unsafe:
  "is_command_safe ''rm -rf /'' None
     = \<lparr>safe = False,
        reason = ''dangerous command '' @ [CHR 0x27] @ ''rm'' @ [CHR 0x27] @ '' is not allowed''\<rparr>"
  by code_simp

lemma gcloud_rsync_safe:
  "is_command_safe ''gcloud storage rsync gs://b .'' None = \<lparr>safe = True, reason = []\<rparr>"
  by code_simp

lemma gcloud_rsync_allowed: "is_allowed ''gcloud storage rsync gs://b .'' None"
  by code_simp

lemma gcloud_rsync_matches_rsync:
  "re_search (wordb ''rsync'') (lower (strip ''gcloud storage rsync gs://b .''))"
  by code_simp

lemma rsync_listed: "wordb ''rsync'' \<in> set DANGEROUS_PATTERNS"
  by (simp add: DANGEROUS_PATTERNS_def)

text \<open>
  C4. \<^verbatim>\<open>rm -rf /\<close> gets an unsafe verdict. \<^verbatim>\<open>gcloud storage rsync gs://b .\<close> gets a
  safe one although the pattern \<^verbatim>\<open>\brsync\b\<close> of the dangerous table matches it: a
  command that the allow-list matches is never dangerous, whatever the dangerous table
  says.
\<close>

theorem allow_list_exempts_from_dangerous:
  "(is_allowed command config \<longrightarrow> \<not> is_dangerous command config)
   \<and> is_command_safe ''rm -rf /'' None
       = \<lparr>safe = False,
          reason = ''dangerous command '' @ [CHR 0x27] @ ''rm'' @ [CHR 0x27] @ '' is not allowed''\<rparr>
   \<and> is_command_safe ''gcloud storage rsync gs://b .'' None = \<lparr>safe = True, reason = []\<rparr>
   \<and> wordb ''rsync'' \<in> set DANGEROUS_PATTERNS
   \<and> re_search (wordb ''rsync'') (lower (strip ''gcloud storage rsync gs://b .''))"
  using allowed_not_dangerous rm_rf_root_unsafe gcloud_rsync_safe rsync_listed
    gcloud_rsync_matches_rsync
  by blast

theorem allow_list_exempts_from_dangerous_witness:
  "is_allowed ''gcloud storage rsync gs://b .'' None
   \<and> \<not> is_dangerous ''gcloud storage rsync gs://b .'' None"
  using allow_list_exempts_from_dangerous [of "''gcloud storage rsync gs://b .''" None]
    gcloud_rsync_allowed
  by blast

lemma upper_gcloud_dangerous: "is_dangerous ''GCLOUD STORAGE RSYNC gs://b .'' None"
  by code_simp

lemma lower_gcloud_not_dangerous: "\<not> is_dangerous ''gcloud storage rsync gs://b .'' None"
  by code_simp

lemma upper_gcloud_not_allowed: "\<not> is_allowed ''GCLOUD STORAGE RSYNC gs://b .'' None"
  by code_simp

lemma upper_gcloud_lowered:
  "lower (strip ''GCLOUD STORAGE RSYNC gs://b .'') = ''gcloud storage rsync gs://b .''"
  by code_simp

lemma upper_gcloud_matches_rsync:
  "re_search (wordb ''rsync'') (lower (strip ''GCLOUD STORAGE RSYNC gs://b .''))"
  by code_simp

lemma is_dangerous_unfolded:
  "is_dangerous command config =
     (\<not> list_ex (\<lambda>pattern. re_search pattern (strip command))
           (DEFAULT_ALLOWED_PATTERNS @ (case config of None \<Rightarrow> [] | Some c \<Rightarrow> allowed_patterns c))
      \<and> list_ex (\<lambda>pattern. re_search pattern (lower (strip command))) DANGEROUS_PATTERNS)"
  by (auto simp: is_dangerous_def is_allowed_def Let_def)

text \<open>
  C9. The dangerous table is searched in the lowercased command, the allow-list in the
  command as typed. So the upper-case \<^verbatim>\<open>GCLOUD STORAGE RSYNC gs://b .\<close> is dangerous:
  no allow pattern matches it as typed, and lowercased it matches \<^verbatim>\<open>\brsync\b\<close>. Its
  lower-case form is not dangerous.
\<close>

theorem dangerous_lowercased_allowed_as_typed:
  "is_dangerous command config =
     (\<not> list_ex (\<lambda>pattern. re_search pattern (strip command))
           (DEFAULT_ALLOWED_PATTERNS @ (case config of None \<Rightarrow> [] | Some c \<Rightarrow> allowed_patterns c))
      \<and> list_ex (\<lambda>pattern. re_search pattern (lower (strip command))) DANGEROUS_PATTERNS)
   \<and> is_dangerous ''GCLOUD STORAGE RSYNC gs://b .'' None
   \<and> \<not> is_dangerous ''gcloud storage rsync gs://b .'' None
   \<and> lower (strip ''GCLOUD STORAGE RSYNC gs://b .'') = ''gcloud storage rsync gs://b .''
   \<and> \<not> is_allowed ''GCLOUD STORAGE RSYNC gs://b .'' None
   \<and> re_search (wordb ''rsync'') (lower (strip ''GCLOUD STORAGE RSYNC gs://b .''))"
  using is_dangerous_unfolded [of command config] upper_gcloud_dangerous
    lower_gcloud_not_dangerous upper_gcloud_not_allowed upper_gcloud_lowered
    upper_gcloud_matches_rsync
  by blast

lemma heredoc_tag_prefix_stripped:
  "strip_heredoc_content
     (''cat > notes.txt <<END'' @ [CHR 0x0A] @ ''ENDPOINT ../api'' @ [CHR 0x0A] @ ''END'')
   = ''cat > notes.txt <<HEREDOC_PLACEHOLDERPOINT ../api'' @ [CHR 0x0A] @ ''END''"
  by code_simp

lemma heredoc_tag_prefix_escaping:
  "is_escaping_workspace
     (''cat > notes.txt <<END'' @ [CHR 0x0A] @ ''ENDPOINT ../api'' @ [CHR 0x0A] @ ''END'')"
  by code_simp

lemma heredoc_tag_prefix_unsafe:
  "is_command_safe
     (''cat > notes.txt <<END'' @ [CHR 0x0A] @ ''ENDPOINT ../api'' @ [CHR 0x0A] @ ''END'') None
   = \<lparr>safe = False, reason = ''Parent directory traversal is not allowed''\<rparr>"
  by code_simp

lemma heredoc_body_ignored:
  "\<not> is_escaping_workspace
       (''cat > notes.txt <<END'' @ [CHR 0x0A] @ ''cd ../api'' @ [CHR 0x0A] @ ''END'')"
  by code_simp

text \<open>
  C5 does not hold of the code. The closing marker of the pattern is a newline followed
  by the tag, not a line that holds the tag alone, so the match ends at the first line of
  the body that starts with the tag. In the command
  \<^verbatim>\<open>cat > notes.txt <<END\<close>, \<^verbatim>\<open>ENDPOINT ../api\<close>, \<^verbatim>\<open>END\<close> (three lines) the body line
  starts with the tag; its rest stays in the stripped command, the parent-directory
  pattern finds \<^verbatim>\<open>../\<close> there, and the command is classified as an escape. A body that
  has no such line is stripped whole: with the body \<^verbatim>\<open>cd ../api\<close> the same command does
  not count as an escape.
\<close>

theorem heredoc_body_line_starting_with_tag:
  "strip_heredoc_content
     (''cat > notes.txt <<END'' @ [CHR 0x0A] @ ''ENDPOINT ../api'' @ [CHR 0x0A] @ ''END'')
   = ''cat > notes.txt <<HEREDOC_PLACEHOLDERPOINT ../api'' @ [CHR 0x0A] @ ''END''
   \<and> is_escaping_workspace
       (''cat > notes.txt <<END'' @ [CHR 0x0A] @ ''ENDPOINT ../api'' @ [CHR 0x0A] @ ''END'')
   \<and> is_command_safe
       (''cat > notes.txt <<END'' @ [CHR 0x0A] @ ''ENDPOINT ../api'' @ [CHR 0x0A] @ ''END'') None
     = \<lparr>safe = False, reason = ''Parent directory traversal is not allowed''\<rparr>
   \<and> \<not> is_escaping_workspace
         (''cat > notes.txt <<END'' @ [CHR 0x0A] @ ''cd ../api'' @ [CHR 0x0A] @ ''END'')"
  using heredoc_tag_prefix_stripped heredoc_tag_prefix_escaping heredoc_tag_prefix_unsafe
    heredoc_body_ignored
  by blast

section \<open>Connection status manager: results\<close>

lemma notify_no_abort:
  assumes "\<forall>l ev w x. fst (call l ev w) \<noteq> RaisesBaseException x"
  shows "fst (notify call ls event w) = None
       \<and> fst (snd (notify call ls event w)) = map (\<lambda>l. (l, event)) ls"
  using assms
proof (induction ls arbitrary: w)
  case Nil
  then show ?case by simp
next
  case (Cons l ls)
  obtain s w' where c: "call l event w = (s, w')"
    by (cases "call l event w")
  with Cons.prems have "\<forall>x. s \<noteq> RaisesBaseException x"
    by (metis fst_conv)
  with c Cons.IH [OF Cons.prems, of w'] show ?case
    by (cases s) (auto split: prod.splits)
qed

lemma sorted_iteration_enumerates: "enumerates sorted_iteration"
  by (simp add: enumerates_def sorted_iteration_def sorted_list_of_fset.rep_eq fset_of_list.abs_eq
      fset_inverse)

lemma failing_listener_no_abort:
  "\<forall>l ev w x. fst (failing_listener l ev w) \<noteq> RaisesBaseException x"
  by (simp add: failing_listener_def)

lemmas status_eval = set_status_def on_status_change_def new_manager_def sorted_iteration_def
  sorted_list_of_fset.rep_eq failing_listener_def Let_def

text \<open>
  C6 (as amended). \<open>set_status\<close> to the current status calls no listener and changes
  nothing. A real transition sets the status and builds one event, with the old status,
  the new one, the time and the error; the event is handed to every registered listener
  once, in the order in which the set of listeners is iterated, and an \<^verbatim>\<open>Exception\<close>
  raised by a listener stops neither the remaining deliveries nor the caller.
\<close>

theorem set_status_delivery:
  assumes "enumerates iteration"
    and "\<forall>l ev w x. fst (call l ev w) \<noteq> RaisesBaseException x"
  shows "(status m = new_status \<longrightarrow>
            set_status iteration call now m new_status err w = ((None, [], w), m))
       \<and> (status m \<noteq> new_status \<longrightarrow>
            (let event = \<lparr>from_status = status m, to_status = new_status, timestamp = now, error = err\<rparr>;
                 ((raised, calls, w'), m') = set_status iteration call now m new_status err w
             in raised = None
                \<and> status m' = new_status \<and> listeners m' = listeners m
                \<and> map snd calls = replicate (length calls) event
                \<and> distinct (map fst calls)
                \<and> fset_of_list (map fst calls) = listeners m
                \<and> map fst calls = iteration (listeners m)))"
proof -
  let ?ev = "\<lparr>from_status = status m, to_status = new_status, timestamp = now, error = err\<rparr>"
  let ?ls = "iteration (listeners m)"
  from assms(1) have en: "fset_of_list ?ls = listeners m" "distinct ?ls"
    by (simp_all add: enumerates_def)
  obtain r cs w' where n: "notify call ?ls ?ev w = (r, cs, w')"
    by (cases "notify call ?ls ?ev w") auto
  from notify_no_abort [OF assms(2), of ?ls ?ev w] n
  have r: "r = None" and cs: "cs = map (\<lambda>l. (l, ?ev)) ?ls"
    by simp_all
  have m1: "map fst cs = ?ls" by (simp add: cs comp_def)
  have m2: "map snd cs = replicate (length cs) ?ev"
    by (simp add: cs comp_def map_replicate_const)
  have m3: "fset_of_list (map fst cs) = listeners m"
    using m1 en by simp
  show ?thesis
    using n r m1 m2 m3 en by (simp add: set_status_def Let_def del: fset_of_list_map)
qed

theorem set_status_delivery_witness:
  "enumerates sorted_iteration
   \<and> (\<forall>l ev w x. fst (failing_listener l ev w) \<noteq> RaisesBaseException x)
   \<and> set_status sorted_iteration failing_listener 0
       (on_status_change (on_status_change (new_manager CONNECTED) 2) 1) CONNECTED None []
     = ((None, [], []), on_status_change (on_status_change (new_manager CONNECTED) 2) 1)
   \<and> fst (set_status sorted_iteration failing_listener 0
       (on_status_change (on_status_change (new_manager CONNECTED) 2) 1) DESTROYED None [])
     = (None,
        [(1, \<lparr>from_status = CONNECTED, to_status = DESTROYED, timestamp = 0, error = None\<rparr>),
         (2, \<lparr>from_status = CONNECTED, to_status = DESTROYED, timestamp = 0, error = None\<rparr>)],
        [2])"
  using set_status_delivery [OF sorted_iteration_enumerates failing_listener_no_abort,
      of "on_status_change (on_status_change (new_manager CONNECTED) 2) 1" CONNECTED 0 None "[]"]
    set_status_delivery [OF sorted_iteration_enumerates failing_listener_no_abort,
      of "on_status_change (on_status_change (new_manager CONNECTED) 2) 1" DESTROYED 0 None "[]"]
    sorted_iteration_enumerates failing_listener_no_abort
  by (simp add: status_eval)

text \<open>
  C6 as stated asks for the order of registration. The listeners are kept in a set, whose
  iteration has no tie to that order: with a set iterated in increasing order, listener 2
  registered before listener 1 is called after it.
\<close>

theorem set_status_registration_order_counterexample:
  "enumerates sorted_iteration
   \<and> map fst (fst (snd (fst (set_status sorted_iteration failing_listener 0
        (on_status_change (on_status_change (new_manager CONNECTED) 2) 1) DESTROYED None []))))
     = [1, 2]
   \<and> map fst (fst (snd (fst (set_status sorted_iteration failing_listener 0
        (on_status_change (on_status_change (new_manager CONNECTED) 2) 1) DESTROYED None []))))
     \<noteq> [2, 1]"
  using sorted_iteration_enumerates by (simp add: status_eval)

section \<open>Backend pool manager: results\<close>

lemma acquire_unpooled:
  "acquire_backend config now pm None ov =
     ((next_backend pm, NoRelease),
      pm\<lparr>backend_status := (backend_status pm)(next_backend pm := backend_factory config (merged config ov)),
         next_backend := Suc (next_backend pm)\<rparr>)"
  by (simp add: acquire_backend_def construct_def merged_def)

lemma acquire_reuse:
  "reusable pm k = Some a \<Longrightarrow>
   acquire_backend config now pm (Some k) ov =
     ((backend (pooled_objs pm a), Release a),
      pm\<lparr>pooled_objs := (pooled_objs pm)
            (a := (pooled_objs pm a)\<lparr>in_use := in_use (pooled_objs pm a) + 1, last_used := now\<rparr>)\<rparr>)"
  by (simp add: acquire_backend_def Let_def)

lemma acquire_fresh:
  "reusable pm k = None \<Longrightarrow>
   acquire_backend config now pm (Some k) ov =
     ((next_backend pm, Release (next_pooled pm)),
      pm\<lparr>backend_status := (backend_status pm)(next_backend pm := backend_factory config (merged config ov)),
         next_backend := Suc (next_backend pm),
         pooled_objs := (pooled_objs pm)
            (next_pooled pm := \<lparr>backend = next_backend pm, in_use = 1, last_used = now\<rparr>),
         backends := (backends pm)(k \<mapsto> next_pooled pm),
         next_pooled := Suc (next_pooled pm)\<rparr>)"
  by (simp add: acquire_backend_def construct_def merged_def)

lemma reusable_Some:
  "reusable pm k = Some a \<longleftrightarrow>
     backends pm k = Some a \<and> backend_status pm (backend (pooled_objs pm a)) = CONNECTED"
  by (auto simp: reusable_def split: option.splits)

lemma reusable_None:
  "reusable pm k = None \<longleftrightarrow>
     (\<forall>a. backends pm k = Some a \<longrightarrow> backend_status pm (backend (pooled_objs pm a)) \<noteq> CONNECTED)"
  by (auto simp: reusable_def split: option.splits)

text \<open>What one acquisition keeps.\<close>

lemma acquire_keeps:
  assumes "acquire_backend config now pm key ov = ((b, r), pm')"
  shows "next_pooled pm \<le> next_pooled pm'"
    and "next_backend pm \<le> next_backend pm'"
    and "a < next_pooled pm \<Longrightarrow> backend (pooled_objs pm' a) = backend (pooled_objs pm a)"
    and "c < next_backend pm \<Longrightarrow> backend_status pm' c = backend_status pm c"
    and "key \<noteq> Some k \<Longrightarrow> backends pm' k = backends pm k"
proof -
  consider (unpooled) "key = None"
    | (reuse) k' a' where "key = Some k'" "reusable pm k' = Some a'"
    | (fresh) k' where "key = Some k'" "reusable pm k' = None"
    by (cases key; cases "reusable pm (the key)") auto
  then have "next_pooled pm \<le> next_pooled pm'
      \<and> next_backend pm \<le> next_backend pm'
      \<and> (a < next_pooled pm \<longrightarrow> backend (pooled_objs pm' a) = backend (pooled_objs pm a))
      \<and> (c < next_backend pm \<longrightarrow> backend_status pm' c = backend_status pm c)
      \<and> (key \<noteq> Some k \<longrightarrow> backends pm' k = backends pm k)"
  proof cases
    case unpooled
    with assms show ?thesis by (auto simp: acquire_unpooled)
  next
    case reuse
    with assms show ?thesis by (auto simp: acquire_reuse)
  next
    case fresh
    with assms show ?thesis by (auto simp: acquire_fresh)
  qed
  then show "next_pooled pm \<le> next_pooled pm'"
    and "next_backend pm \<le> next_backend pm'"
    and "a < next_pooled pm \<Longrightarrow> backend (pooled_objs pm' a) = backend (pooled_objs pm a)"
    and "c < next_backend pm \<Longrightarrow> backend_status pm' c = backend_status pm c"
    and "key \<noteq> Some k \<Longrightarrow> backends pm' k = backends pm k"
    by blast+
qed

lemma acquire_wf:
  assumes "acquire_backend config now pm key ov = ((b, r), pm')" and "wf_pool pm"
  shows "wf_pool pm'"
proof -
  consider (unpooled) "key = None"
    | (reuse) k' a' where "key = Some k'" "reusable pm k' = Some a'"
    | (fresh) k' where "key = Some k'" "reusable pm k' = None"
    by (cases key; cases "reusable pm (the key)") auto
  then show ?thesis
  proof cases
    case unpooled
    with assms show ?thesis
      by (auto simp: acquire_unpooled wf_pool_def less_Suc_eq)
  next
    case reuse
    with assms show ?thesis
      by (auto simp: acquire_reuse wf_pool_def)
  next
    case fresh
    with assms show ?thesis
      by (auto simp: acquire_fresh wf_pool_def less_Suc_eq split: if_splits)
  qed
qed

text \<open>The pooled object of a key after an acquisition with that key.\<close>

lemma acquire_entry:
  assumes "acquire_backend config now pm (Some k) ov = ((b, r), pm')" and "wf_pool pm"
  shows "\<exists>a. backends pm' k = Some a \<and> backend (pooled_objs pm' a) = b
           \<and> a < next_pooled pm' \<and> b < next_backend pm'"
proof (cases "reusable pm k")
  case None
  with assms show ?thesis by (auto simp: acquire_fresh)
next
  case (Some a)
  with assms show ?thesis by (auto simp: acquire_reuse reusable_Some wf_pool_def)
qed

lemma wf_new_pool: "wf_pool new_pool"
  by (simp add: wf_pool_def new_pool_def)

lemma release_keeps:
  "next_pooled (release now h pm) = next_pooled pm"
  "next_backend (release now h pm) = next_backend pm"
  "backends (release now h pm) = backends pm"
  "backend_status (release now h pm) = backend_status pm"
  "backend (pooled_objs (release now h pm) a) = backend (pooled_objs pm a)"
  by (cases h; simp)+

lemma release_wf: "wf_pool pm \<Longrightarrow> wf_pool (release now h pm)"
  by (simp add: wf_pool_def release_keeps)

lemma step_wf: "wf_pool (pool rs) \<Longrightarrow> wf_pool (pool (step config rs ev))"
proof (cases ev)
  case (Acquire key ov now)
  assume "wf_pool (pool rs)"
  with Acquire show ?thesis
    by (auto split: prod.splits dest: acquire_wf)
next
  case (InvokeRelease i now)
  assume "wf_pool (pool rs)"
  with InvokeRelease show ?thesis by (simp add: release_wf)
next
  case (StatusChange b st)
  assume "wf_pool (pool rs)"
  with StatusChange show ?thesis by (simp add: wf_pool_def)
qed

lemma run_Cons: "run config rs (ev # events) = run config (step config rs ev) events"
  by (simp add: run_def)

lemma run_Nil: "run config rs [] = rs"
  by (simp add: run_def)

lemma run_append: "run config rs (xs @ ys) = run config (run config rs xs) ys"
  by (simp add: run_def)

lemma run_wf: "wf_pool (pool rs) \<Longrightarrow> wf_pool (pool (run config rs events))"
  by (induction events arbitrary: rs) (simp_all add: run_Cons run_Nil step_wf)

lemma holds_acquire:
  assumes "holds pm k b" and "acquire_backend config now pm key ov = ((b', r), pm')"
  shows "holds pm' k b" and "key = Some k \<Longrightarrow> b' = b"
proof -
  from assms(1) obtain a where a: "backends pm k = Some a" "backend (pooled_objs pm a) = b"
    "a < next_pooled pm" "b < next_backend pm" "backend_status pm b = CONNECTED"
    by (auto simp: holds_def)
  then have re: "reusable pm k = Some a"
    by (simp add: reusable_Some)
  show "key = Some k \<Longrightarrow> b' = b"
    using assms(2) re a by (auto simp: acquire_reuse)
  show "holds pm' k b"
  proof (cases "key = Some k")
    case True
    with assms(2) re a show ?thesis
      by (auto simp: acquire_reuse holds_def)
  next
    case False
    from acquire_keeps [OF assms(2)] False a
    have "backends pm' k = Some a" "backend (pooled_objs pm' a) = b"
      "a < next_pooled pm'" "b < next_backend pm'" "backend_status pm' b = CONNECTED"
      by auto
    then show ?thesis by (auto simp: holds_def)
  qed
qed

lemma holds_step:
  assumes "holds (pool rs) k b" and "\<not> changes_status b ev"
  shows "holds (pool (step config rs ev)) k b"
proof (cases ev)
  case (Acquire key ov now)
  with assms show ?thesis
    by (auto split: prod.splits dest: holds_acquire(1))
next
  case (InvokeRelease i now)
  with assms show ?thesis
    by (auto simp: holds_def release_keeps)
next
  case (StatusChange b' st)
  with assms show ?thesis
    by (auto simp: holds_def)
qed

lemma holds_run:
  "holds (pool rs) k b \<Longrightarrow> \<not> list_ex (changes_status b) events
   \<Longrightarrow> holds (pool (run config rs events)) k b"
  by (induction events arbitrary: rs) (simp_all add: run_Cons run_Nil holds_step)

lemma pool_start: "pool start = new_pool"
  by (simp add: start_def)


lemmas pool_eval = run_def start_def new_pool_def acquire_backend_def construct_def reusable_def
  connected_config_def disconnected_config_def Let_def

text \<open>
  C7 (as amended). After an acquisition with a key has returned a backend, and as long
  as that backend is connected and nothing changes its status, every later acquisition
  with the key returns the same backend, whatever acquisitions and releases come between.
  When the backend pooled under a key is not connected, for whatever reason, the next
  acquisition with the key constructs a new backend, different from the pooled one, and
  puts a new pooled object under the key; the stale backend keeps its status (the pool
  does not destroy it) and its pooled object stays as it was.
\<close>

theorem acquire_reuses_connected_replaces_stale:
  "(let rs1 = run config start (before @ [Acquire (Some k) ov1 t1]);
        b = last (returned rs1)
    in backend_status (pool rs1) b = CONNECTED \<longrightarrow> \<not> list_ex (changes_status b) between \<longrightarrow>
       last (returned (run config rs1 (between @ [Acquire (Some k) ov2 t2]))) = b)
   \<and> (let pm = pool (run config start before)
      in \<forall>a. backends pm k = Some a \<and> backend_status pm (backend (pooled_objs pm a)) \<noteq> CONNECTED \<longrightarrow>
           (case acquire_backend config now pm (Some k) ov of
              ((b', r), pm') \<Rightarrow>
                b' = next_backend pm \<and> b' \<noteq> backend (pooled_objs pm a)
                \<and> (\<exists>a'. backends pm' k = Some a' \<and> a' \<noteq> a \<and> backend (pooled_objs pm' a') = b')
                \<and> backend_status pm' (backend (pooled_objs pm a))
                    = backend_status pm (backend (pooled_objs pm a))
                \<and> pooled_objs pm' a = pooled_objs pm a))"
proof -
  define rs0 where "rs0 = run config start before"
  have wf0: "wf_pool (pool rs0)"
    unfolding rs0_def by (rule run_wf) (simp add: pool_start wf_new_pool)
  have partA: "backend_status (pool rs1) b = CONNECTED \<longrightarrow> \<not> list_ex (changes_status b) between \<longrightarrow>
       last (returned (run config rs1 (between @ [Acquire (Some k) ov2 t2]))) = b"
    if rs1: "rs1 = run config start (before @ [Acquire (Some k) ov1 t1])"
      and b: "b = last (returned rs1)" for rs1 b
  proof (intro impI)
    assume conn: "backend_status (pool rs1) b = CONNECTED"
      and quiet: "\<not> list_ex (changes_status b) between"
    obtain b1 r1 pm1 where acq: "acquire_backend config t1 (pool rs0) (Some k) ov1 = ((b1, r1), pm1)"
      by (metis surj_pair)
    have rs1': "rs1 = rs0\<lparr>pool := pm1, handles := handles rs0 @ [r1], returned := returned rs0 @ [b1]\<rparr>"
      using acq unfolding rs0_def by (simp add: rs1 run_append run_Cons run_Nil)
    then have "b = b1" by (simp add: b)
    with acquire_entry [OF acq wf0] conn rs1' have h1: "holds (pool rs1) k b"
      by (auto simp: holds_def)
    define rs2 where "rs2 = run config rs1 between"
    from holds_run [OF h1 quiet] have h2: "holds (pool rs2) k b"
      by (simp add: rs2_def)
    obtain b2 r2 pm2 where acq2: "acquire_backend config t2 (pool rs2) (Some k) ov2 = ((b2, r2), pm2)"
      by (metis surj_pair)
    from holds_acquire(2) [OF h2 acq2] have "b2 = b" by simp
    then show "last (returned (run config rs1 (between @ [Acquire (Some k) ov2 t2]))) = b"
      using acq2 unfolding rs2_def by (simp add: run_append run_Cons run_Nil)
  qed
  have partB: "case acquire_backend config now (pool rs0) (Some k) ov of
              ((b', r), pm') \<Rightarrow>
                b' = next_backend (pool rs0) \<and> b' \<noteq> backend (pooled_objs (pool rs0) a)
                \<and> (\<exists>a'. backends pm' k = Some a' \<and> a' \<noteq> a \<and> backend (pooled_objs pm' a') = b')
                \<and> backend_status pm' (backend (pooled_objs (pool rs0) a))
                    = backend_status (pool rs0) (backend (pooled_objs (pool rs0) a))
                \<and> pooled_objs pm' a = pooled_objs (pool rs0) a"
    if stale: "backends (pool rs0) k = Some a"
      "backend_status (pool rs0) (backend (pooled_objs (pool rs0) a)) \<noteq> CONNECTED" for a
  proof -
    from stale have none: "reusable (pool rs0) k = None"
      by (simp add: reusable_None)
    from wf0 stale(1) have lt: "a < next_pooled (pool rs0)"
      "backend (pooled_objs (pool rs0) a) < next_backend (pool rs0)"
      by (auto simp: wf_pool_def)
    then show ?thesis
      by (simp add: acquire_fresh [OF none])
  qed
  from partA partB show ?thesis
    by (simp add: Let_def rs0_def)
qed


theorem acquire_reuses_connected_replaces_stale_witness:
  "backend_status (pool (run connected_config start ([] @ [Acquire (Some ''x'') None 0])))
       (last (returned (run connected_config start ([] @ [Acquire (Some ''x'') None 0])))) = CONNECTED
   \<and> \<not> list_ex (changes_status
           (last (returned (run connected_config start ([] @ [Acquire (Some ''x'') None 0])))))
         [InvokeRelease 0 1, Acquire (Some ''y'') None 2 :: unit pool_event]
   \<and> returned (run connected_config (run connected_config start ([] @ [Acquire (Some ''x'') None 0]))
        ([InvokeRelease 0 1, Acquire (Some ''y'') None 2] @ [Acquire (Some ''x'') None 3])) = [0, 1, 0]
   \<and> backends (pool (run connected_config start
        [Acquire (Some ''x'') None 0, StatusChange 0 DESTROYED])) ''x'' = Some 0
   \<and> backend_status (pool (run connected_config start
        [Acquire (Some ''x'') None 0, StatusChange 0 DESTROYED])) 0 = DESTROYED
   \<and> fst (fst (acquire_backend connected_config 5 (pool (run connected_config start
        [Acquire (Some ''x'') None 0, StatusChange 0 DESTROYED])) (Some ''x'') None)) = 1"
  using acquire_reuses_connected_replaces_stale [where config = connected_config
      and before = "[]" and k = "''x''" and ?ov1.0 = None and ?t1.0 = 0
      and between = "[InvokeRelease 0 1, Acquire (Some ''y'') None 2]"
      and ?ov2.0 = None and ?t2.0 = 3 and now = 5 and ov = None]
    acquire_reuses_connected_replaces_stale [where config = connected_config
      and before = "[Acquire (Some ''x'') None 0, StatusChange 0 DESTROYED]" and k = "''x''"
      and ?ov1.0 = None and ?t1.0 = 0 and between = "[]"
      and ?ov2.0 = None and ?t2.0 = 3 and now = 5 and ov = None]
  by (simp add: pool_eval)

text \<open>
  C7 as stated fails when the pooled backend is not connected although nobody destroyed
  it: with a factory whose backends start disconnected, two acquisitions with the same
  key and nothing between them return two backends, neither of them destroyed.
\<close>

theorem acquire_disconnected_counterexample:
  "returned (run disconnected_config start
      [Acquire (Some ''x'') None 0, Acquire (Some ''x'') None 1]) = [0, 1]
   \<and> backend_status (pool (run disconnected_config start
        [Acquire (Some ''x'') None 0, Acquire (Some ''x'') None 1])) 0 = DISCONNECTED
   \<and> backend_status (pool (run disconnected_config start
        [Acquire (Some ''x'') None 0, Acquire (Some ''x'') None 1])) 1 = DISCONNECTED"
  by (simp add: pool_eval)

lemma filter_nth_append:
  "\<forall>i \<in> set is. i < length hs \<Longrightarrow>
   filter (\<lambda>i. (hs @ [h]) ! i = x) is = filter (\<lambda>i. hs ! i = x) is"
  by (rule filter_cong) (auto simp: nth_append)

lemma filter_nth_none:
  "\<forall>i \<in> set is. i < length hs \<Longrightarrow> x \<notin> set hs \<Longrightarrow> filter (\<lambda>i. hs ! i = x) is = []"
  by (auto simp: filter_empty_conv)

lemma accounted_start: "accounted start"
  by (simp add: accounted_def start_def new_pool_def)

lemma accounted_acquire:
  assumes acc: "accounted rs" and wf: "wf_pool (pool rs)"
  shows "accounted (step config rs (Acquire key ov now))"
proof -
  from acc have hv: "\<forall>a. Release a \<in> set (handles rs) \<longrightarrow> a < next_pooled (pool rs)"
    and iv: "\<forall>i \<in> set (invoked rs). i < length (handles rs)"
    and cnt: "\<forall>a < next_pooled (pool rs).
            in_use (pooled_objs (pool rs) a)
              = int (length (filter (\<lambda>h. h = Release a) (handles rs)))
                - int (length (filter (\<lambda>i. handles rs ! i = Release a) (invoked rs)))"
    by (simp_all add: accounted_def)
  consider (unpooled) "key = None"
    | (reuse) k a' where "key = Some k" "reusable (pool rs) k = Some a'"
    | (fresh) k where "key = Some k" "reusable (pool rs) k = None"
    by (cases key; cases "reusable (pool rs) (the key)") auto
  then show ?thesis
  proof cases
    case unpooled
    with hv iv cnt show ?thesis
      by (simp add: accounted_def acquire_unpooled filter_nth_append less_Suc_eq)
  next
    case reuse
    from reuse(2) wf have "a' < next_pooled (pool rs)"
      by (auto simp: reusable_Some wf_pool_def)
    with reuse hv iv cnt show ?thesis
      by (auto simp: accounted_def acquire_reuse filter_nth_append less_Suc_eq)
  next
    case fresh
    from hv have new: "Release (next_pooled (pool rs)) \<notin> set (handles rs)"
      by auto
    from filter_nth_none [OF iv new]
    have none: "filter (\<lambda>i. handles rs ! i = Release (next_pooled (pool rs))) (invoked rs) = []" .
    from new have none': "filter (\<lambda>h. h = Release (next_pooled (pool rs))) (handles rs) = []"
      by (auto simp: filter_empty_conv)
    from fresh hv iv cnt none none' show ?thesis
      by (auto simp: accounted_def acquire_fresh filter_nth_append less_Suc_eq)
  qed
qed

lemma accounted_release:
  assumes acc: "accounted rs"
  shows "accounted (step config rs (InvokeRelease i now))"
proof (cases "i < length (handles rs)")
  case False
  with acc show ?thesis by simp
next
  case True
  from acc have hv: "\<forall>a. Release a \<in> set (handles rs) \<longrightarrow> a < next_pooled (pool rs)"
    and iv: "\<forall>i \<in> set (invoked rs). i < length (handles rs)"
    and cnt: "\<forall>a < next_pooled (pool rs).
            in_use (pooled_objs (pool rs) a)
              = int (length (filter (\<lambda>h. h = Release a) (handles rs)))
                - int (length (filter (\<lambda>i. handles rs ! i = Release a) (invoked rs)))"
    by (simp_all add: accounted_def)
  show ?thesis
  proof (cases "handles rs ! i")
    case NoRelease
    with True hv iv cnt show ?thesis
      by (simp add: accounted_def)
  next
    case (Release a0)
    with True have "Release a0 \<in> set (handles rs)"
      by (metis nth_mem)
    with hv have "a0 < next_pooled (pool rs)" by blast
    with Release True hv iv cnt show ?thesis
      by (auto simp: accounted_def)
  qed
qed

lemma accounted_step:
  "accounted rs \<Longrightarrow> wf_pool (pool rs) \<Longrightarrow> accounted (step config rs ev)"
proof (cases ev)
  case (Acquire key ov now)
  assume "accounted rs" "wf_pool (pool rs)"
  with Acquire show ?thesis by (simp only: accounted_acquire)
next
  case (InvokeRelease i now)
  assume "accounted rs"
  with InvokeRelease show ?thesis by (simp only: accounted_release)
next
  case (StatusChange b st)
  assume "accounted rs"
  with StatusChange show ?thesis by (simp add: accounted_def)
qed

lemma accounted_run:
  "accounted rs \<Longrightarrow> wf_pool (pool rs) \<Longrightarrow> accounted (run config rs events)"
  by (induction events arbitrary: rs) (simp_all add: run_Cons run_Nil accounted_step step_wf)

lemma invoked_step:
  "invoked (step config rs ev) = invoked rs
   \<or> (\<exists>i now. ev = InvokeRelease i now \<and> invoked (step config rs ev) = invoked rs @ [i])"
  by (cases ev) (auto split: prod.splits)

lemma invoked_run:
  "distinct (invoked rs @ release_calls events) \<Longrightarrow> distinct (invoked (run config rs events))"
proof (induction events arbitrary: rs)
  case Nil
  then show ?case by (simp add: run_Nil)
next
  case (Cons ev events)
  from invoked_step [of config rs ev] Cons.prems
  have "distinct (invoked (step config rs ev) @ release_calls events)"
    by (cases ev) auto
  then show ?case
    by (simp add: run_Cons Cons.IH)
qed

lemma released_at_most_acquired:
  assumes "distinct is" and "\<forall>i \<in> set is. i < length hs"
  shows "length (filter (\<lambda>i. hs ! i = x) is) \<le> length (filter (\<lambda>h. h = x) hs)"
proof -
  have "length (filter (\<lambda>i. hs ! i = x) is) = card ({i. hs ! i = x} \<inter> set is)"
    using assms(1) by (rule distinct_length_filter)
  also have "\<dots> \<le> card {i. i < length hs \<and> hs ! i = x}"
    using assms(2) by (intro card_mono) auto
  also have "\<dots> = length (filter (\<lambda>h. h = x) hs)"
    by (simp add: length_filter_conv_card)
  finally show ?thesis .
qed

lemma release_calls_take_subset:
  "set (release_calls (take n events)) \<subseteq> set (release_calls events)"
proof (induction events arbitrary: n)
  case Nil
  then show ?case by simp
next
  case (Cons ev events)
  from Cons [of "n - 1"] show ?case
    by (cases n; cases ev) auto
qed

lemma release_calls_take:
  "distinct (release_calls events) \<Longrightarrow> distinct (release_calls (take n events))"
proof (induction events arbitrary: n)
  case Nil
  then show ?case by simp
next
  case (Cons ev events)
  from Cons.prems have "distinct (release_calls events)"
    by (cases ev) auto
  from Cons.IH [OF this, of "n - 1"] Cons.prems release_calls_take_subset [of "n - 1" events]
  show ?case
    by (cases n; cases ev) auto
qed

text \<open>
  C8 (as amended). In every sequence of acquisitions, status changes and calls of the
  release functions returned so far in which no release function is called twice, the
  counter \<open>in_use\<close> of every pooled object is at least zero at every point of the
  sequence.
\<close>

theorem in_use_never_negative:
  assumes "distinct (release_calls events)"
    and "a < next_pooled (pool (run config start (take n events)))"
  shows "0 \<le> in_use (pooled_objs (pool (run config start (take n events))) a)"
proof -
  define rs where "rs = run config start (take n events)"
  have acc: "accounted rs"
    unfolding rs_def by (intro accounted_run accounted_start) (simp add: pool_start wf_new_pool)
  have "distinct (release_calls (take n events))"
    using assms(1) by (rule release_calls_take)
  then have d: "distinct (invoked rs)"
    unfolding rs_def by (intro invoked_run) (simp add: start_def)
  from acc have iv: "\<forall>i \<in> set (invoked rs). i < length (handles rs)"
    by (simp add: accounted_def)
  from acc assms(2) have "in_use (pooled_objs (pool rs) a)
      = int (length (filter (\<lambda>h. h = Release a) (handles rs)))
        - int (length (filter (\<lambda>i. handles rs ! i = Release a) (invoked rs)))"
    by (simp add: accounted_def rs_def)
  with released_at_most_acquired [OF d iv, of "Release a"] show ?thesis
    by (simp add: rs_def)
qed
theorem in_use_never_negative_witness:
  "distinct (release_calls
      [Acquire (Some ''x'') None 0, Acquire (Some ''x'') None 1, InvokeRelease 0 2,
       InvokeRelease 1 3 :: unit pool_event])
   \<and> 0 < next_pooled (pool (run connected_config start (take 3
        [Acquire (Some ''x'') None 0, Acquire (Some ''x'') None 1, InvokeRelease 0 2,
         InvokeRelease 1 3])))
   \<and> 0 \<le> in_use (pooled_objs (pool (run connected_config start (take 3
        [Acquire (Some ''x'') None 0, Acquire (Some ''x'') None 1, InvokeRelease 0 2,
         InvokeRelease 1 3]))) 0)
   \<and> in_use (pooled_objs (pool (run connected_config start (take 3
        [Acquire (Some ''x'') None 0, Acquire (Some ''x'') None 1, InvokeRelease 0 2,
         InvokeRelease 1 3]))) 0) = 1"
  using in_use_never_negative [where config = connected_config and a = 0 and n = 3
      and events = "[Acquire (Some ''x'') None 0, Acquire (Some ''x'') None 1, InvokeRelease 0 2,
         InvokeRelease 1 3]"]
  by (simp add: pool_eval)

text \<open>
  C8 as stated fails: a release function subtracts one each time it is called, and
  nothing keeps a caller from calling it twice.
\<close>

theorem in_use_double_release_counterexample:
  "in_use (pooled_objs (pool (run connected_config start
      [Acquire (Some ''x'') None 0, InvokeRelease 0 1, InvokeRelease 0 2])) 0) = - 1
   \<and> 0 < next_pooled (pool (run connected_config start
      [Acquire (Some ''x'') None 0, InvokeRelease 0 1, InvokeRelease 0 2]))"
  by (simp add: pool_eval)

end
